theory Spec2Isabelle
  imports Complex_Main "HOL-Library.AList"
begin

section \<open>SICFOR certificates: a model of \<open>certificaciones.js\<close>\<close>

text \<open>
  The module keeps a list of certificate records in the browser's \<open>localStorage\<close>,
  draws a certificate on a canvas and offers search and deletion over the history.
  The model follows the file top down: the platform (strings, JSON, storage, console),
  the utilities, the certificate factory, the storage helpers, the two helpers of the
  renderer (the mock QR box and the text wrapping) and the handlers of the page module.
  Exceptions are values of a sum type; what the code changes (the storage area, the
  console, the in-memory list) is passed in and returned.

  JavaScript strings are modelled as \<^typ>\<open>string\<close>; the case mappings below act on the
  ASCII letters and carry every other character through unchanged.
\<close>

subsection \<open>Platform: strings\<close>

definition SP :: char where
  "SP = CHR 0x20"

definition DQ :: char where
  "DQ = CHR 0x22"

definition BSL :: char where
  "BSL = CHR 0x5C"

text \<open>\<open>String.prototype.trim\<close>: the white space and line terminators in the 8-bit range.\<close>

definition is_space :: "char \<Rightarrow> bool" where
  "is_space c = (of_char c \<in> {9, 10, 11, 12, 13, 32, 160 :: nat})"

definition trim :: "string \<Rightarrow> string" where
  "trim s = rev (dropWhile is_space (rev (dropWhile is_space s)))"

text \<open>\<open>text.split(' ')\<close>: the pieces between single spaces; never an empty array.\<close>

fun split_sp :: "string \<Rightarrow> string list" where
  "split_sp [] = [[]]"
| "split_sp (c # cs) =
     (if c = SP then [] # split_sp cs
      else (case split_sp cs of [] \<Rightarrow> [[c]] | w # ws \<Rightarrow> (c # w) # ws))"

text \<open>\<open>s.slice(a, b)\<close> for \<open>0 \<le> a \<le> b\<close>.\<close>

definition slice :: "string \<Rightarrow> nat \<Rightarrow> nat \<Rightarrow> string" where
  "slice s a b = take (b - a) (drop a s)"

definition upper_char :: "char \<Rightarrow> char" where
  "upper_char c =
     (let k = of_char c :: nat in if 97 \<le> k \<and> k \<le> 122 then char_of (k - 32) else c)"

definition lower_char :: "char \<Rightarrow> char" where
  "lower_char c =
     (let k = of_char c :: nat in if 65 \<le> k \<and> k \<le> 90 then char_of (k + 32) else c)"

definition toUpperCase :: "string \<Rightarrow> string" where
  "toUpperCase s = map upper_char s"

definition toLowerCase :: "string \<Rightarrow> string" where
  "toLowerCase s = map lower_char s"

subsection \<open>Platform: exceptions\<close>

datatype js_error = SyntaxError | QuotaExceededError

text \<open>\<open>try { body } catch (e) { handler(e) }\<close>\<close>

definition try_catch :: "js_error + 'a \<Rightarrow> (js_error \<Rightarrow> 'a) \<Rightarrow> 'a" where
  "try_catch body handler = (case body of Inl e \<Rightarrow> handler e | Inr v \<Rightarrow> v)"

subsection \<open>Platform: JSON\<close>

text \<open>
  JSON values as \<open>JSON.parse\<close> returns them. A number is kept as the numeral that was
  read (its arithmetic is not modelled); an object is the list of its properties in the
  order of the text. Characters are 8 bits wide: a \<open>\u\<close> escape above \<open>00ff\<close> has no
  value in the model and is refused.
\<close>

datatype json =
    JNull
  | JBool bool
  | JNum string
  | JStr string
  | JArr "json list"
  | JObj "(string \<times> json) list"

text \<open>\<open>JSON.stringify\<close>: no white space, strings quoted with the escapes of the standard.\<close>

definition hex_digit :: "nat \<Rightarrow> char" where
  "hex_digit d = (if d < 10 then char_of (48 + d) else char_of (87 + d))"

definition quote_char :: "char \<Rightarrow> string" where
  "quote_char c =
     (let k = of_char c :: nat in
      if c = DQ then [BSL, DQ]
      else if c = BSL then [BSL, BSL]
      else if k = 8 then [BSL, CHR ''b'']
      else if k = 9 then [BSL, CHR ''t'']
      else if k = 10 then [BSL, CHR ''n'']
      else if k = 12 then [BSL, CHR ''f'']
      else if k = 13 then [BSL, CHR ''r'']
      else if k < 32 then [BSL, CHR ''u'', CHR ''0'', CHR ''0'', hex_digit (k div 16), hex_digit (k mod 16)]
      else [c])"

definition quote :: "string \<Rightarrow> string" where
  "quote s = DQ # concat (map quote_char s) @ [DQ]"

fun join_comma :: "string list \<Rightarrow> string" where
  "join_comma [] = []"
| "join_comma [s] = s"
| "join_comma (s # t # ts) = s @ CHR '','' # join_comma (t # ts)"

fun JSON_stringify :: "json \<Rightarrow> string" where
  "JSON_stringify JNull = ''null''"
| "JSON_stringify (JBool b) = (if b then ''true'' else ''false'')"
| "JSON_stringify (JNum lit) = lit"
| "JSON_stringify (JStr s) = quote s"
| "JSON_stringify (JArr vs) = CHR ''['' # join_comma (map JSON_stringify vs) @ '']''"
| "JSON_stringify (JObj ms) =
     CHR ''{'' # join_comma (map (\<lambda>m. quote (fst m) @ CHR '':'' # JSON_stringify (snd m)) ms) @ ''}''"

text \<open>\<open>JSON.parse\<close>, first its white space and its strings.\<close>

definition is_ws :: "char \<Rightarrow> bool" where
  "is_ws c = (of_char c \<in> {9, 10, 13, 32 :: nat})"

definition skip_ws :: "string \<Rightarrow> string" where
  "skip_ws s = dropWhile is_ws s"

definition hex_val :: "char \<Rightarrow> nat option" where
  "hex_val c =
     (let k = of_char c :: nat in
      if 48 \<le> k \<and> k \<le> 57 then Some (k - 48)
      else if 65 \<le> k \<and> k \<le> 70 then Some (k - 55)
      else if 97 \<le> k \<and> k \<le> 102 then Some (k - 87)
      else None)"

definition unescape :: "char \<Rightarrow> char option" where
  "unescape e =
     (if e = DQ then Some DQ
      else if e = BSL then Some BSL
      else if e = CHR ''/'' then Some (CHR ''/'')
      else if e = CHR ''b'' then Some (char_of (8 :: nat))
      else if e = CHR ''f'' then Some (char_of (12 :: nat))
      else if e = CHR ''n'' then Some (char_of (10 :: nat))
      else if e = CHR ''r'' then Some (char_of (13 :: nat))
      else if e = CHR ''t'' then Some (char_of (9 :: nat))
      else None)"

definition hex4 :: "char \<Rightarrow> char \<Rightarrow> char \<Rightarrow> char \<Rightarrow> char option" where
  "hex4 a b c d =
     (case (hex_val a, hex_val b, hex_val c, hex_val d) of
        (Some p, Some q, Some r, Some s) \<Rightarrow>
          (if p = 0 \<and> q = 0 then Some (char_of (16 * r + s)) else None)
      | _ \<Rightarrow> None)"

fun parse_chars :: "string \<Rightarrow> (string \<times> string) option" where
  "parse_chars [] = None"
| "parse_chars (c # cs) =
     (if c = DQ then Some ([], cs)
      else if c = BSL then
        (case cs of
           [] \<Rightarrow> None
         | e # r \<Rightarrow>
             if e = CHR ''u'' then
               (case r of
                  a # b # c' # d # r' \<Rightarrow>
                    (case hex4 a b c' d of
                       None \<Rightarrow> None
                     | Some u \<Rightarrow> map_option (apfst ((#) u)) (parse_chars r'))
                | _ \<Rightarrow> None)
             else
               (case unescape e of
                  None \<Rightarrow> None
                | Some u \<Rightarrow> map_option (apfst ((#) u)) (parse_chars r)))
      else if (of_char c :: nat) < 32 then None
      else map_option (apfst ((#) c)) (parse_chars cs))"

definition is_digit :: "char \<Rightarrow> bool" where
  "is_digit c = (let k = of_char c :: nat in 48 \<le> k \<and> k \<le> 57)"

text \<open>The pieces of a JSON number: integer part, fraction, exponent.\<close>

definition parse_int_part :: "string \<Rightarrow> (string \<times> string) option" where
  "parse_int_part s =
     (case s of
        [] \<Rightarrow> None
      | c # r \<Rightarrow>
          if c = CHR ''0'' then Some ([c], r)
          else if is_digit c then Some (c # takeWhile is_digit r, dropWhile is_digit r)
          else None)"

definition parse_digits1 :: "string \<Rightarrow> (string \<times> string) option" where
  "parse_digits1 s =
     (if takeWhile is_digit s = [] then None
      else Some (takeWhile is_digit s, dropWhile is_digit s))"

definition parse_frac :: "string \<Rightarrow> (string \<times> string) option" where
  "parse_frac s =
     (case s of
        c # r \<Rightarrow>
          if c = CHR ''.'' then map_option (apfst ((#) c)) (parse_digits1 r)
          else Some ([], s)
      | [] \<Rightarrow> Some ([], s))"

definition parse_exp :: "string \<Rightarrow> (string \<times> string) option" where
  "parse_exp s =
     (case s of
        c # r \<Rightarrow>
          if c = CHR ''e'' \<or> c = CHR ''E'' then
            (case r of
               g # r' \<Rightarrow>
                 if g = CHR ''+'' \<or> g = CHR ''-''
                 then map_option (apfst (\<lambda>ds. c # g # ds)) (parse_digits1 r')
                 else map_option (apfst ((#) c)) (parse_digits1 r)
             | [] \<Rightarrow> None)
          else Some ([], s)
      | [] \<Rightarrow> Some ([], s))"

definition parse_number :: "string \<Rightarrow> (json \<times> string) option" where
  "parse_number s =
     (let (sign, s1) =
            (case s of c # r \<Rightarrow> if c = CHR ''-'' then ([c], r) else ([], s) | [] \<Rightarrow> ([], s))
      in case parse_int_part s1 of
           None \<Rightarrow> None
         | Some (ip, s2) \<Rightarrow>
             (case parse_frac s2 of
                None \<Rightarrow> None
              | Some (fp, s3) \<Rightarrow>
                  (case parse_exp s3 of
                     None \<Rightarrow> None
                   | Some (ep, s4) \<Rightarrow> Some (JNum (sign @ ip @ fp @ ep), s4))))"

definition parse_literal :: "string \<Rightarrow> json \<Rightarrow> string \<Rightarrow> (json \<times> string) option" where
  "parse_literal lit v s =
     (if take (length lit) s = lit then Some (v, drop (length lit) s) else None)"

text \<open>
  An object keeps one entry per key: a repeated key overwrites the value and keeps the
  place of the first occurrence.
\<close>

definition mk_obj :: "(string \<times> json) list \<Rightarrow> (string \<times> json) list" where
  "mk_obj ms = foldl (\<lambda>obj m. AList.update (fst m) (snd m) obj) [] ms"

text \<open>
  The recursive descent over values, array elements and object members. The first
  argument bounds the number of nested calls. A call for an element or a member comes
  after at least one character has been consumed and costs at most two units, so
  \<open>JSON_parse\<close> starts above twice the length of the text: no larger bound changes any
  result (lemma \<open>JSON_parse_fuel\<close> below).
\<close>

fun parse_value :: "nat \<Rightarrow> string \<Rightarrow> (json \<times> string) option"
  and parse_elems :: "nat \<Rightarrow> string \<Rightarrow> (json list \<times> string) option"
  and parse_members :: "nat \<Rightarrow> string \<Rightarrow> ((string \<times> json) list \<times> string) option"
where
  "parse_value 0 s = None"
| "parse_value (Suc n) s =
     (case skip_ws s of
        [] \<Rightarrow> None
      | c # r \<Rightarrow>
          if c = DQ then map_option (apfst JStr) (parse_chars r)
          else if c = CHR ''['' then
            (case skip_ws r of
               [] \<Rightarrow> None
             | d # r' \<Rightarrow>
                 if d = CHR '']'' then Some (JArr [], r')
                 else map_option (apfst JArr) (parse_elems n r))
          else if c = CHR ''{'' then
            (case skip_ws r of
               [] \<Rightarrow> None
             | d # r' \<Rightarrow>
                 if d = CHR ''}'' then Some (JObj [], r')
                 else map_option (apfst (\<lambda>ms. JObj (mk_obj ms))) (parse_members n r))
          else if c = CHR ''n'' then parse_literal ''null'' JNull (c # r)
          else if c = CHR ''t'' then parse_literal ''true'' (JBool True) (c # r)
          else if c = CHR ''f'' then parse_literal ''false'' (JBool False) (c # r)
          else parse_number (c # r))"
| "parse_elems 0 s = None"
| "parse_elems (Suc n) s =
     (case parse_value n s of
        None \<Rightarrow> None
      | Some (v, r) \<Rightarrow>
          (case skip_ws r of
             [] \<Rightarrow> None
           | d # r' \<Rightarrow>
               if d = CHR '','' then map_option (apfst ((#) v)) (parse_elems n r')
               else if d = CHR '']'' then Some ([v], r')
               else None))"
| "parse_members 0 s = None"
| "parse_members (Suc n) s =
     (case skip_ws s of
        [] \<Rightarrow> None
      | q # r \<Rightarrow>
          if q \<noteq> DQ then None
          else
            (case parse_chars r of
               None \<Rightarrow> None
             | Some (k, r1) \<Rightarrow>
                 (case skip_ws r1 of
                    [] \<Rightarrow> None
                  | c # r2 \<Rightarrow>
                      if c \<noteq> CHR '':'' then None
                      else
                        (case parse_value n r2 of
                           None \<Rightarrow> None
                         | Some (v, r3) \<Rightarrow>
                             (case skip_ws r3 of
                                [] \<Rightarrow> None
                              | d # r4 \<Rightarrow>
                                  if d = CHR '','' then
                                    map_option (apfst ((#) (k, v))) (parse_members n r4)
                                  else if d = CHR ''}'' then Some ([(k, v)], r4)
                                  else None)))))"

text \<open>\<open>JSON.parse\<close>: a value, white space around it, nothing else; otherwise it throws.\<close>

definition JSON_parse :: "string \<Rightarrow> js_error + json" where
  "JSON_parse s =
     (case parse_value (Suc (2 * length s)) s of
        None \<Rightarrow> Inl SyntaxError
      | Some (v, r) \<Rightarrow> if skip_ws r = [] then Inr v else Inl SyntaxError)"

subsection \<open>Platform: console and \<open>localStorage\<close>\<close>

text \<open>
  The storage area of the origin: its key/value pairs and the quota of the browser.
  \<open>setItem\<close> throws and changes nothing when the new contents would exceed the quota.
\<close>

record local_storage =
  items :: "(string \<times> string) list"
  quota :: nat

definition usage :: "(string \<times> string) list \<Rightarrow> nat" where
  "usage kvs = sum_list (map (\<lambda>kv. length (fst kv) + length (snd kv)) kvs)"

definition getItem :: "local_storage \<Rightarrow> string \<Rightarrow> string option" where
  "getItem st k = map_of (items st) k"

definition setItem :: "local_storage \<Rightarrow> string \<Rightarrow> string \<Rightarrow> js_error + local_storage" where
  "setItem st k v =
     (let kvs = AList.update k v (items st)
      in if quota st < usage kvs then Inl QuotaExceededError else Inr (st\<lparr>items := kvs\<rparr>))"

definition removeItem :: "local_storage \<Rightarrow> string \<Rightarrow> local_storage" where
  "removeItem st k = st\<lparr>items := AList.delete k (items st)\<rparr>"

text \<open>What the page can observe: the storage area and the lines of \<open>console.error\<close>.\<close>

record world =
  localStorage :: local_storage
  console :: "(string \<times> js_error) list"

definition console_error :: "string \<Rightarrow> js_error \<Rightarrow> world \<Rightarrow> world" where
  "console_error msg e w = w\<lparr>console := console w @ [(msg, e)]\<rparr>"

subsection \<open>Utilities\<close>

definition STORAGE_KEY :: string where
  "STORAGE_KEY = ''sicfor:certificates:v1''"

text \<open>\<open>a || b\<close> where \<open>a\<close> is a string or \<open>null\<close>: the empty string and \<open>null\<close> are falsy.\<close>

definition or_else :: "string option \<Rightarrow> string \<Rightarrow> string" where
  "or_else a b = (case a of None \<Rightarrow> b | Some s \<Rightarrow> if s = [] then b else s)"

text \<open>
  \<open>uid\<close> takes the text of \<open>Math.random().toString(36)\<close> as its first argument: the draw
  is an input of the model. That text is \<open>0\<close> for the draw 0 and otherwise \<open>0.\<close> followed
  by the base-36 digits of the fraction, the last of them not \<open>0\<close>.
\<close>

definition uid :: "string \<Rightarrow> nat \<Rightarrow> string" where
  "uid random36 len = slice random36 2 (2 + len)"

definition is_base36 :: "char \<Rightarrow> bool" where
  "is_base36 c = (let k = of_char c :: nat in (48 \<le> k \<and> k \<le> 57) \<or> (97 \<le> k \<and> k \<le> 122))"

definition random_text :: "string \<Rightarrow> bool" where
  "random_text r =
     (r = ''0'' \<or>
      (take 2 r = ''0.'' \<and> drop 2 r \<noteq> [] \<and> list_all is_base36 (drop 2 r)
       \<and> last r \<noteq> CHR ''0''))"

subsection \<open>Certificate model factory\<close>

record payload =
  name :: string
  title :: string
  issuer :: string
  date :: string
  note' :: string

record certificate = payload +
  id' :: string
  verificationCode :: string
  createdAt :: string

text \<open>
  The factory's inputs beside the payload: the texts of its two random draws and the
  text of \<open>nowISO()\<close>.
\<close>

definition makeCertificate :: "string \<Rightarrow> string \<Rightarrow> string \<Rightarrow> payload \<Rightarrow> certificate" where
  "makeCertificate random1 random2 now p =
     (let i = uid random1 12;
          code = toUpperCase (uid random2 16)
      in \<lparr>name = name p, title = title p, issuer = issuer p, date = date p, note' = note' p,
          id' = i, verificationCode = code, createdAt = now\<rparr>)"

text \<open>The object the factory returns, as a JSON value: its properties in the order written.\<close>

definition cert_json :: "certificate \<Rightarrow> json" where
  "cert_json c =
     JObj [(''id'', JStr (id' c)),
           (''verificationCode'', JStr (verificationCode c)),
           (''name'', JStr (name c)),
           (''title'', JStr (title c)),
           (''issuer'', JStr (issuer c)),
           (''date'', JStr (date c)),
           (''note'', JStr (note' c)),
           (''createdAt'', JStr (createdAt c))]"

definition list_json :: "certificate list \<Rightarrow> json" where
  "list_json cs = JArr (map cert_json cs)"

subsection \<open>Storage helpers\<close>

definition load :: "world \<Rightarrow> json \<times> world" where
  "load w =
     try_catch
       (let raw = or_else (getItem (localStorage w) STORAGE_KEY) ''[]''
        in case JSON_parse raw of Inl e \<Rightarrow> Inl e | Inr v \<Rightarrow> Inr (v, w))
       (\<lambda>e. (JArr [], console_error ''Storage read error'' e w))"

definition save :: "json \<Rightarrow> world \<Rightarrow> world" where
  "save list w =
     try_catch
       (case setItem (localStorage w) STORAGE_KEY (JSON_stringify list) of
          Inl e \<Rightarrow> Inl e
        | Inr st \<Rightarrow> Inr (w\<lparr>localStorage := st\<rparr>))
       (\<lambda>e. console_error ''Storage write error'' e w)"

definition clear :: "world \<Rightarrow> world" where
  "clear w = w\<lparr>localStorage := removeItem (localStorage w) STORAGE_KEY\<rparr>"

subsection \<open>Platform: the canvas\<close>

datatype cmd =
    Save
  | Restore
  | SetFillStyle string
  | SetFont string
  | SetTextAlign string
  | FillRect real real real real
  | FillText string real real

subsection \<open>The mock QR box\<close>

text \<open>
  A drawing is the list of the calls made on the 2D context. The certificate renderer
  calls \<open>drawMockQR\<close> with the verification code at \<open>(980, 505)\<close> with size 150, and
  \<open>wrapText\<close> with the note at \<open>(160, 440)\<close> with a maximum width of 880 and a line height
  of 28. Below, the inner loop over \<open>j\<close> and the outer loop over \<open>i\<close>.
\<close>

function qr_inner :: "real \<Rightarrow> real \<Rightarrow> real \<Rightarrow> nat \<Rightarrow> nat \<Rightarrow> cmd list" where
  "qr_inner x y step i j =
     (if j < 6 then
        (if (i + j) mod 2 = 0
         then [FillRect (x + 12 + real i * step) (y + 12 + real j * step) (step - 2) (step - 2)]
         else [])
        @ qr_inner x y step i (Suc j)
      else [])"
  by pat_completeness auto
termination
  by (relation "measure (\<lambda>(x, y, step, i, j). 6 - j)") auto

function qr_outer :: "real \<Rightarrow> real \<Rightarrow> real \<Rightarrow> nat \<Rightarrow> cmd list" where
  "qr_outer x y step i =
     (if i < 6 then qr_inner x y step i 0 @ qr_outer x y step (Suc i) else [])"
  by pat_completeness auto
termination
  by (relation "measure (\<lambda>(x, y, step, i). 6 - i)") auto

definition drawMockQR :: "string \<Rightarrow> real \<Rightarrow> real \<Rightarrow> real \<Rightarrow> cmd list" where
  "drawMockQR text x y sz =
     [Save,
      SetFillStyle ''#0b1220'',
      FillRect x y sz sz,
      SetFillStyle ''#fff'',
      FillRect (x + 12) (y + 12) (sz - 24) (sz - 24),
      SetFillStyle ''#0b1220'']
     @ (let step = real_of_int \<lfloor>(sz - 24) / 6\<rfloor> in qr_outer x y step 0)
     @ [Restore]"

subsection \<open>Text wrapping\<close>

text \<open>
  \<open>measureText s\<close> is \<open>ctx.measureText(s).width\<close> for the font in force. The loop carries the
  index \<open>n\<close>, the words still to come, the line under construction and \<open>y\<close>.
\<close>

fun wrap_loop ::
  "(string \<Rightarrow> real) \<Rightarrow> real \<Rightarrow> real \<Rightarrow> real \<Rightarrow> nat \<Rightarrow> string list \<Rightarrow> string \<Rightarrow> real \<Rightarrow> cmd list"
where
  "wrap_loop measureText x maxWidth lineHeight n [] line y =
     (if line \<noteq> [] then [FillText (trim line) (x + maxWidth / 2) y] else [])"
| "wrap_loop measureText x maxWidth lineHeight n (word # rest) line y =
     (let testLine = line @ word @ [SP]
      in if measureText testLine > maxWidth \<and> n > 0
         then FillText (trim line) (x + maxWidth / 2) y
              # wrap_loop measureText x maxWidth lineHeight (n + 1) rest (word @ [SP]) (y + lineHeight)
         else wrap_loop measureText x maxWidth lineHeight (n + 1) rest testLine y)"

definition wrapText ::
  "(string \<Rightarrow> real) \<Rightarrow> string \<Rightarrow> real \<Rightarrow> real \<Rightarrow> real \<Rightarrow> real \<Rightarrow> cmd list"
where
  "wrapText measureText text x y maxWidth lineHeight =
     SetTextAlign ''center'' # wrap_loop measureText x maxWidth lineHeight 0 (split_sp text) [] y"

text \<open>The lines a command list writes, in order.\<close>

fun lines_of :: "cmd list \<Rightarrow> string list" where
  "lines_of [] = []"
| "lines_of (FillText t x y # cs) = t # lines_of cs"
| "lines_of (c # cs) = lines_of cs"

text \<open>
  The loop read as a grouping of the pieces of \<open>text.split(' ')\<close>: the line under
  construction is always \<open>candidate_text\<close> of the pieces taken so far, each followed by a
  space; \<open>wrap_groups\<close> lists the pieces of every line the loop draws and \<open>draw_groups\<close>
  the calls it makes for them (lemma \<open>wrap_loop_groups\<close> below).
\<close>

definition candidate_text :: "string list \<Rightarrow> string" where
  "candidate_text ws = concat (map (\<lambda>w. w @ [SP]) ws)"

fun wrap_groups :: "(string \<Rightarrow> real) \<Rightarrow> real \<Rightarrow> string list \<Rightarrow> string list \<Rightarrow> string list list" where
  "wrap_groups measureText maxWidth cur [] = [cur]"
| "wrap_groups measureText maxWidth cur (w # ws) =
     (if measureText (candidate_text (cur @ [w])) > maxWidth \<and> cur \<noteq> []
      then cur # wrap_groups measureText maxWidth [w] ws
      else wrap_groups measureText maxWidth (cur @ [w]) ws)"

fun draw_groups :: "real \<Rightarrow> real \<Rightarrow> real \<Rightarrow> real \<Rightarrow> string list list \<Rightarrow> cmd list" where
  "draw_groups x y maxWidth lineHeight [] = []"
| "draw_groups x y maxWidth lineHeight (l # ls) =
     FillText (trim (candidate_text l)) (x + maxWidth / 2) y
     # draw_groups x (y + lineHeight) maxWidth lineHeight ls"

subsection \<open>Page module\<close>

record module =
  certList :: "certificate list"
  page :: world
  currentPreview :: "certificate option"
  notices :: "string list"

record form =
  inputName :: string
  inputTitle :: string
  inputIssuer :: string
  inputDate :: string
  inputNote :: string

text \<open>
  What the submit handler reads from its environment: the text of \<open>new Date().toISOString()\<close>
  when the payload is built, the two random draws and the text of \<open>nowISO()\<close>.
\<close>

record env =
  dateNow :: string
  random1 :: string
  random2 :: string
  createdNow :: string

text \<open>\<open>alert\<close> and \<open>_setMessage\<close> both show a text to the user.\<close>

definition notify :: "string \<Rightarrow> module \<Rightarrow> module" where
  "notify t m = m\<lparr>notices := notices m @ [t]\<rparr>"

definition form_payload :: "env \<Rightarrow> form \<Rightarrow> payload" where
  "form_payload e f =
     \<lparr>name = trim (inputName f),
      title = trim (inputTitle f),
      issuer = trim (inputIssuer f),
      date = or_else (Some (inputDate f)) (slice (dateNow e) 0 10),
      note' = trim (inputNote f)\<rparr>"

definition handleGenerateAndSave :: "env \<Rightarrow> form \<Rightarrow> module \<Rightarrow> module" where
  "handleGenerateAndSave e f m =
     (let p = form_payload e f
      in if name p = [] then notify ''El nombre del beneficiario es obligatorio'' m
         else
           let cert = makeCertificate (random1 e) (random2 e) (createdNow e) p;
               cs = cert # certList m;
               w = save (list_json cs) (page m)
           in notify ''Certificado generado y guardado en historial''
                (m\<lparr>certList := cs, page := w, currentPreview := Some cert\<rparr>))"

text \<open>The delete button of a history row; \<open>ok\<close> is the answer to \<open>confirm\<close>.\<close>

definition handleDelete :: "bool \<Rightarrow> string \<Rightarrow> module \<Rightarrow> module" where
  "handleDelete ok i m =
     (if \<not> ok then m
      else
        let cs = filter (\<lambda>c. id' c \<noteq> i) (certList m);
            w = save (list_json cs) (page m)
        in notify ''Certificado eliminado'' (m\<lparr>certList := cs, page := w\<rparr>))"

text \<open>The search button: what the result line shows.\<close>

datatype search_result = EnterCode | Valid certificate | NotFound

definition handleSearch :: "string \<Rightarrow> module \<Rightarrow> search_result" where
  "handleSearch v m =
     (let q = toUpperCase (trim (or_else (Some v) []))
      in if q = [] then EnterCode
         else case find (\<lambda>c. verificationCode c = q) (certList m) of
                Some c \<Rightarrow> Valid c
              | None \<Rightarrow> NotFound)"

definition handleClearHistory :: "bool \<Rightarrow> module \<Rightarrow> module" where
  "handleClearHistory ok m =
     (if \<not> ok then m
      else notify ''Historial eliminado'' (m\<lparr>certList := [], page := clear (page m)\<rparr>))"

subsection \<open>The word-wrap algorithm as the specification words it\<close>

text \<open>
  Written from the specification, not from the code. The words of a note are its maximal
  runs of characters other than the space. A line is rendered as its words joined by
  single spaces. Words are accumulated into a candidate line; before a word is added the
  rendered width of the line with that word is measured; if it exceeds the maximum width
  and the line already has at least one word, the line is emitted and a new one started
  with that word; otherwise the word is appended. The trailing line is always emitted.
  The lines are drawn centred in the column, one line height apart.
\<close>

fun words_from :: "string \<Rightarrow> string \<Rightarrow> string list" where
  "words_from cur [] = (if cur = [] then [] else [cur])"
| "words_from cur (c # cs) =
     (if c = SP then (if cur = [] then words_from [] cs else cur # words_from [] cs)
      else words_from (cur @ [c]) cs)"

definition spec_words :: "string \<Rightarrow> string list" where
  "spec_words text = words_from [] text"

fun spec_line :: "string list \<Rightarrow> string" where
  "spec_line [] = []"
| "spec_line [w] = w"
| "spec_line (w # v # ws) = w @ SP # spec_line (v # ws)"

fun spec_wrap :: "(string \<Rightarrow> real) \<Rightarrow> real \<Rightarrow> string list \<Rightarrow> string list \<Rightarrow> string list list" where
  "spec_wrap measureText maxWidth line [] = [line]"
| "spec_wrap measureText maxWidth line (w # ws) =
     (if measureText (spec_line (line @ [w])) > maxWidth \<and> line \<noteq> []
      then line # spec_wrap measureText maxWidth [w] ws
      else spec_wrap measureText maxWidth (line @ [w]) ws)"

fun spec_draw :: "real \<Rightarrow> real \<Rightarrow> real \<Rightarrow> real \<Rightarrow> string list \<Rightarrow> cmd list" where
  "spec_draw x y maxWidth lineHeight [] = []"
| "spec_draw x y maxWidth lineHeight (l # ls) =
     FillText l (x + maxWidth / 2) y # spec_draw x (y + lineHeight) maxWidth lineHeight ls"

definition spec_wrapText ::
  "(string \<Rightarrow> real) \<Rightarrow> string \<Rightarrow> real \<Rightarrow> real \<Rightarrow> real \<Rightarrow> real \<Rightarrow> cmd list"
where
  "spec_wrapText measureText text x y maxWidth lineHeight =
     SetTextAlign ''center''
     # spec_draw x y maxWidth lineHeight
         (map spec_line (spec_wrap measureText maxWidth [] (spec_words text)))"

text \<open>
  A note that is its words joined by single spaces, with no other white space: no space
  at either end, no two spaces in a row, no tab or line break.
\<close>

definition single_spaced :: "string \<Rightarrow> bool" where
  "single_spaced text =
     (spec_words text \<noteq> [] \<and> spec_line (spec_words text) = text
      \<and> list_all (\<lambda>c. c = SP \<or> \<not> is_space c) text)"

text \<open>Tokens of digits and upper-case letters.\<close>

definition is_upper_alnum :: "char \<Rightarrow> bool" where
  "is_upper_alnum c = (let k = of_char c :: nat in (48 \<le> k \<and> k \<le> 57) \<or> (65 \<le> k \<and> k \<le> 90))"

subsection \<open>Sample data\<close>

text \<open>
  Inputs for the closed theorems below: the record of the specification's scenario and a
  second one, with the forms and draws that produce them; storage areas with room
  (\<open>roomy_world\<close>), with no room for any list (\<open>full_world\<close>) and with room for the list of
  Ana's record and nothing longer (\<open>tight_world\<close>); a slot with a given text; the module as
  constructed on an empty slot (\<open>start\<close>); a font in which every character is 10 pixels wide.
\<close>

definition ana_payload :: payload where
  "ana_payload =
     \<lparr>name = ''Ana Ruiz'', title = ''Curso de Primeros Auxilios'', issuer = ''Centro X'',
      date = ''2024-03-01'', note' = ''ok''\<rparr>"

definition ana :: certificate where
  "ana = makeCertificate ''0.4fzyo82mvyr'' ''0.k2j8x0q1m7c'' ''2024-03-01T10:00:00.000Z'' ana_payload"

definition roomy_world :: world where
  "roomy_world = \<lparr>localStorage = \<lparr>items = [], quota = 5000\<rparr>, console = []\<rparr>"

definition full_world :: world where
  "full_world = \<lparr>localStorage = \<lparr>items = [], quota = 10\<rparr>, console = []\<rparr>"

definition tight_world :: world where
  "tight_world = \<lparr>localStorage = \<lparr>items = [], quota = 223\<rparr>, console = []\<rparr>"

definition world_with :: "string \<Rightarrow> world" where
  "world_with raw = \<lparr>localStorage = \<lparr>items = [(STORAGE_KEY, raw)], quota = 5000\<rparr>, console = []\<rparr>"

definition ana_form :: form where
  "ana_form =
     \<lparr>inputName = '' Ana Ruiz '', inputTitle = ''Curso de Primeros Auxilios'',
      inputIssuer = ''Centro X'', inputDate = ''2024-03-01'', inputNote = ''ok''\<rparr>"

definition ana_env :: env where
  "ana_env =
     \<lparr>dateNow = ''2024-03-01T10:00:00.000Z'', random1 = ''0.4fzyo82mvyr'',
      random2 = ''0.k2j8x0q1m7c'', createdNow = ''2024-03-01T10:00:00.000Z''\<rparr>"

definition bea_form :: form where
  "bea_form =
     \<lparr>inputName = ''Beatriz Montenegro de la Vega'', inputTitle = ''Curso de Primeros Auxilios'',
      inputIssuer = ''Centro X'', inputDate = [], inputNote = ''ok''\<rparr>"

definition bea_env :: env where
  "bea_env =
     \<lparr>dateNow = ''2024-03-02T09:30:00.000Z'', random1 = ''0.9x1c3kq0zzt'',
      random2 = ''0.i'', createdNow = ''2024-03-02T09:30:00.001Z''\<rparr>"

definition bea :: certificate where
  "bea = makeCertificate (random1 bea_env) (random2 bea_env) (createdNow bea_env)
           (form_payload bea_env bea_form)"

definition start :: "world \<Rightarrow> module" where
  "start w = \<lparr>certList = [], page = w, currentPreview = None, notices = []\<rparr>"

definition long_word :: string where
  "long_word = replicate 100 (CHR ''a'')"

definition long_note :: string where
  "long_note = ''Por haber completado satisfactoriamente el curso de primeros auxilios impartido durante el mes de marzo''"

definition fixed_font :: "string \<Rightarrow> real" where
  "fixed_font s = 10 * real (length s)"

section \<open>Properties\<close>

subsection \<open>The fuel of the JSON parser\<close>

lemma skip_ws_length: "length (skip_ws s) \<le> length s"
  by (simp add: skip_ws_def length_dropWhile_le)

lemma skip_ws_ConsD: "skip_ws s = c # r \<Longrightarrow> length r < length s"
  using skip_ws_length [of s] by simp

lemma map_option_apfst_Some:
  "map_option (apfst f) x = Some (t, r) \<Longrightarrow> \<exists>t'. x = Some (t', r)"
  by (cases x) (auto simp: apfst_def map_prod_def)

lemma parse_chars_length: "parse_chars s = Some (t, r) \<Longrightarrow> length r < length s"
proof (induction "length s" arbitrary: s t rule: less_induct)
  case less
  show ?case
  proof (cases s)
    case Nil
    then show ?thesis using less.prems by simp
  next
    case (Cons c cs)
    consider (quote) "c = DQ" | (esc) "c \<noteq> DQ" "c = BSL" | (plain) "c \<noteq> DQ" "c \<noteq> BSL"
      by blast
    then show ?thesis
    proof cases
      case quote
      then show ?thesis using less.prems Cons by simp
    next
      case plain
      then have "\<exists>t'. parse_chars cs = Some (t', r)"
        using less.prems Cons
        by (auto split: if_splits dest: map_option_apfst_Some)
      then obtain t' where "parse_chars cs = Some (t', r)" ..
      then have "length r < length cs"
        using less.hyps [of cs t'] Cons by simp
      then show ?thesis using Cons by simp
    next
      case esc
      show ?thesis
      proof (cases cs)
        case Nil
        then show ?thesis using less.prems Cons esc by simp
      next
        case c2: (Cons e r0)
        show ?thesis
        proof (cases "e = CHR ''u''")
          case False
          then have "\<exists>t'. parse_chars r0 = Some (t', r)"
            using less.prems Cons esc c2
            by (auto split: option.splits dest: map_option_apfst_Some)
          then obtain t' where "parse_chars r0 = Some (t', r)" ..
          then have "length r < length r0"
            using less.hyps [of r0 t'] Cons c2 by simp
          then show ?thesis using Cons c2 by simp
        next
          case True
          have "\<exists>a b c' d r' t'. r0 = a # b # c' # d # r' \<and> parse_chars r' = Some (t', r)"
            using less.prems Cons esc c2 True
            by (auto split: option.splits list.splits dest: map_option_apfst_Some)
          then obtain a b c' d r' t' where r0: "r0 = a # b # c' # d # r'"
            and p: "parse_chars r' = Some (t', r)"
            by blast
          have "length r < length r'"
            using less.hyps [of r' t'] p Cons c2 r0 by simp
          then show ?thesis using Cons c2 r0 by simp
        qed
      qed
    qed
  qed
qed


lemma parse_digits1_length: "parse_digits1 s = Some (t, r) \<Longrightarrow> length r \<le> length s"
  by (auto simp: parse_digits1_def length_dropWhile_le split: if_splits)

lemma parse_number_length: "parse_number s = Some (v, r) \<Longrightarrow> length r < length s"
proof -
  assume a: "parse_number s = Some (v, r)"
  have ip: "parse_int_part u = Some (t, w) \<Longrightarrow> length w < length u" for u t w
    using length_dropWhile_le [of is_digit "tl u"]
    by (cases u) (auto simp: parse_int_part_def split: if_splits)
  have fp: "parse_frac u = Some (t, w) \<Longrightarrow> length w \<le> length u" for u t w
    using parse_digits1_length
    by (cases u) (fastforce simp: parse_frac_def split: if_splits)+
  have ep: "parse_exp u = Some (t, w) \<Longrightarrow> length w \<le> length u" for u t w
    using parse_digits1_length
    by (cases u; cases "tl u") (fastforce simp: parse_exp_def split: if_splits)+
  from a show ?thesis
    apply (cases s)
     apply (auto simp: parse_number_def split: option.splits if_splits prod.splits dest!: ip fp ep)
    done
qed

lemma parse_literal_length: "lit \<noteq> [] \<Longrightarrow> parse_literal lit v s = Some (u, r) \<Longrightarrow> length r < length s"
  by (cases s) (auto simp: parse_literal_def split: if_splits)

lemma skip_ws_Cons_le: "skip_ws s = c # r \<Longrightarrow> length (c # r) \<le> length s"
  using skip_ws_length [of s] by simp

text \<open>Every parser returns a proper suffix of its input.\<close>

lemma parse_length:
  "(\<forall>s v r. parse_value n s = Some (v, r) \<longrightarrow> length r < length s)
   \<and> (\<forall>s vs r. parse_elems n s = Some (vs, r) \<longrightarrow> length r < length s)
   \<and> (\<forall>s ms r. parse_members n s = Some (ms, r) \<longrightarrow> length r < length s)"
proof (induction n)
  case 0
  show ?case by simp
next
  case (Suc n)
  then have ihv: "\<And>s v r. parse_value n s = Some (v, r) \<Longrightarrow> length r < length s"
    and ihe: "\<And>s vs r. parse_elems n s = Some (vs, r) \<Longrightarrow> length r < length s"
    and ihm: "\<And>s ms r. parse_members n s = Some (ms, r) \<Longrightarrow> length r < length s"
    by blast+
  have v: "length r < length s" if p: "parse_value (Suc n) s = Some (v, r)" for s v r
  proof (cases "skip_ws s")
    case Nil
    then show ?thesis using p by simp
  next
    case (Cons c r0)
    note le = skip_ws_Cons_le [OF Cons]
    consider (str) "c = DQ" | (arr) "c \<noteq> DQ" "c = CHR ''[''" | (obj) "c \<noteq> DQ" "c = CHR ''{''"
      | (other) "c \<noteq> DQ" "c \<noteq> CHR ''[''" "c \<noteq> CHR ''{''"
      by blast
    then show ?thesis
    proof cases
      case str
      then have "\<exists>t. parse_chars r0 = Some (t, r)"
        using p Cons by (auto dest: map_option_apfst_Some)
      then show ?thesis
        using parse_chars_length le by fastforce
    next
      case arr
      show ?thesis
      proof (cases "skip_ws r0")
        case Nil
        then show ?thesis using p Cons arr by simp
      next
        case c2: (Cons d r')
        show ?thesis
        proof (cases "d = CHR '']''")
          case True
          then show ?thesis
            using p Cons arr c2 le skip_ws_Cons_le [OF c2] by simp
        next
          case False
          then have "\<exists>t. parse_elems n r0 = Some (t, r)"
            using p Cons arr c2 by (auto dest: map_option_apfst_Some)
          then show ?thesis
            using ihe le by fastforce
        qed
      qed
    next
      case obj
      show ?thesis
      proof (cases "skip_ws r0")
        case Nil
        then show ?thesis using p Cons obj by simp
      next
        case c2: (Cons d r')
        show ?thesis
        proof (cases "d = CHR ''}''")
          case True
          then show ?thesis
            using p Cons obj c2 le skip_ws_Cons_le [OF c2] by simp
        next
          case False
          then have "\<exists>t. parse_members n r0 = Some (t, r)"
            using p Cons obj c2 by (auto dest: map_option_apfst_Some)
          then show ?thesis
            using ihm le by fastforce
        qed
      qed
    next
      case other
      then have "parse_literal ''null'' JNull (c # r0) = Some (v, r)
          \<or> parse_literal ''true'' (JBool True) (c # r0) = Some (v, r)
          \<or> parse_literal ''false'' (JBool False) (c # r0) = Some (v, r)
          \<or> parse_number (c # r0) = Some (v, r)"
        using p Cons by (simp split: if_splits)
      then have "length r < length (c # r0)"
        using parse_literal_length parse_number_length by (metis list.distinct(1))
      then show ?thesis
        using le by simp
    qed
  qed
  have e: "length r < length s" if p: "parse_elems (Suc n) s = Some (vs, r)" for s vs r
  proof -
    from p obtain v r1 where pv: "parse_value n s = Some (v, r1)"
      by (auto split: option.splits)
    from p pv obtain d r2 where ws: "skip_ws r1 = d # r2"
      by (cases "skip_ws r1") auto
    have l1: "length r1 < length s"
      using pv by (rule ihv)
    have l2: "length r2 < length r1"
      using ws by (rule skip_ws_ConsD)
    show ?thesis
    proof (cases "d = CHR '',''")
      case True
      then have "\<exists>t. parse_elems n r2 = Some (t, r)"
        using p pv ws by (auto dest: map_option_apfst_Some)
      then have "length r < length r2"
        using ihe by blast
      then show ?thesis using l1 l2 by simp
    next
      case False
      then have "r = r2"
        using p pv ws by (simp split: if_splits)
      then show ?thesis using l1 l2 by simp
    qed
  qed
  have m: "length r < length s" if p: "parse_members (Suc n) s = Some (ms, r)" for s ms r
  proof -
    from p obtain q r0 where w0: "skip_ws s = q # r0"
      by (cases "skip_ws s") auto
    from p w0 have q: "q = DQ"
      by (auto split: if_splits)
    from p w0 q obtain k r1 where pc: "parse_chars r0 = Some (k, r1)"
      by (auto split: option.splits)
    from p w0 q pc obtain c r2 where w1: "skip_ws r1 = c # r2"
      by (cases "skip_ws r1") auto
    from p w0 q pc w1 have c: "c = CHR '':''"
      by (auto split: if_splits)
    from p w0 q pc w1 c obtain v r3 where pv: "parse_value n r2 = Some (v, r3)"
      by (auto split: option.splits)
    from p w0 q pc w1 c pv obtain d r4 where w3: "skip_ws r3 = d # r4"
      by (cases "skip_ws r3") auto
    have l: "length r4 < length s"
      using skip_ws_ConsD [OF w0] parse_chars_length [OF pc] skip_ws_ConsD [OF w1]
        ihv [OF pv] skip_ws_ConsD [OF w3]
      by simp
    show ?thesis
    proof (cases "d = CHR '',''")
      case True
      then have "\<exists>t. parse_members n r4 = Some (t, r)"
        using p w0 q pc w1 c pv w3 by (auto dest: map_option_apfst_Some)
      then have "length r < length r4"
        using ihm by blast
      then show ?thesis using l by simp
    next
      case False
      then have "r = r4"
        using p w0 q pc w1 c pv w3 by (simp split: if_splits)
      then show ?thesis using l by simp
    qed
  qed
  from v e m show ?case
    by blast
qed

lemmas parse_value_length = parse_length [THEN conjunct1, rule_format]

text \<open>
  More fuel never changes a result: above twice the length of the text (and one more
  for elements and members) the parsers no longer depend on their first argument.
\<close>

lemma fuel_enough:
  "(\<forall>s m. 2 * length s < n \<and> n \<le> m \<longrightarrow> parse_value m s = parse_value n s)
   \<and> (\<forall>s m. 2 * length s + 1 < n \<and> n \<le> m \<longrightarrow> parse_elems m s = parse_elems n s)
   \<and> (\<forall>s m. 2 * length s + 1 < n \<and> n \<le> m \<longrightarrow> parse_members m s = parse_members n s)"
proof (induction n)
  case 0
  show ?case by simp
next
  case (Suc n)
  then have ihv: "\<And>s m. 2 * length s < n \<Longrightarrow> n \<le> m \<Longrightarrow> parse_value m s = parse_value n s"
    and ihe: "\<And>s m. 2 * length s + 1 < n \<Longrightarrow> n \<le> m \<Longrightarrow> parse_elems m s = parse_elems n s"
    and ihm: "\<And>s m. 2 * length s + 1 < n \<Longrightarrow> n \<le> m \<Longrightarrow> parse_members m s = parse_members n s"
    by blast+
  have v: "parse_value (Suc m) s = parse_value (Suc n) s"
    if b: "2 * length s < Suc n" and le: "n \<le> m" for s m
  proof (cases "skip_ws s")
    case Nil
    then show ?thesis by simp
  next
    case (Cons c r0)
    have r0: "2 * length r0 + 1 < n"
      using skip_ws_ConsD [OF Cons] b by simp
    have e1: "parse_elems m r0 = parse_elems n r0"
      using r0 le by (rule ihe)
    have e2: "parse_members m r0 = parse_members n r0"
      using r0 le by (rule ihm)
    show ?thesis
      by (cases "skip_ws r0") (simp_all add: Cons e1 e2)
  qed
  have e: "parse_elems (Suc m) s = parse_elems (Suc n) s"
    if b: "2 * length s + 1 < Suc n" and le: "n \<le> m" for s m
  proof -
    have pv: "parse_value m s = parse_value n s"
      by (rule ihv) (use b le in simp_all)
    show ?thesis
    proof (cases "parse_value n s")
      case None
      then show ?thesis by (simp add: pv)
    next
      case (Some a)
      obtain u r1 where a: "a = (u, r1)" by (cases a)
      have l1: "length r1 < length s"
        using Some a by (auto dest: parse_value_length)
      show ?thesis
      proof (cases "skip_ws r1")
        case Nil
        then show ?thesis by (simp add: pv Some a)
      next
        case (Cons d r2)
        have "2 * length r2 + 1 < n"
          using skip_ws_ConsD [OF Cons] l1 b by simp
        then have e1: "parse_elems m r2 = parse_elems n r2"
          using le by (rule ihe)
        show ?thesis
          by (simp add: pv Some a Cons e1)
      qed
    qed
  qed
  have mm: "parse_members (Suc m) s = parse_members (Suc n) s"
    if b: "2 * length s + 1 < Suc n" and le: "n \<le> m" for s m
  proof (cases "skip_ws s")
    case Nil
    then show ?thesis by simp
  next
    case w0: (Cons q r0)
    show ?thesis
    proof (cases "parse_chars r0")
      case None
      then show ?thesis by (simp add: w0)
    next
      case (Some a)
      obtain k r1 where a: "a = (k, r1)" by (cases a)
      have l1: "length r1 < length s"
        using skip_ws_ConsD [OF w0] parse_chars_length [of r0 k r1] Some a by simp
      show ?thesis
      proof (cases "skip_ws r1")
        case Nil
        then show ?thesis by (simp add: w0 Some a)
      next
        case w1: (Cons c r2)
        have l2: "length r2 < length s"
          using skip_ws_ConsD [OF w1] l1 by simp
        have pv: "parse_value m r2 = parse_value n r2"
          by (rule ihv) (use l2 b le in simp_all)
        show ?thesis
        proof (cases "parse_value n r2")
          case None
          then show ?thesis by (simp add: w0 Some a w1 pv)
        next
          case s2: (Some a2)
          obtain u r3 where a2: "a2 = (u, r3)" by (cases a2)
          have l3: "length r3 < length r2"
            using s2 a2 by (auto dest: parse_value_length)
          show ?thesis
          proof (cases "skip_ws r3")
            case Nil
            then show ?thesis by (simp add: w0 Some a w1 pv s2 a2)
          next
            case w3: (Cons d r4)
            have "2 * length r4 + 1 < n"
              using skip_ws_ConsD [OF w3] l3 l2 b by simp
            then have e2: "parse_members m r4 = parse_members n r4"
              using le by (rule ihm)
            show ?thesis
              by (simp add: w0 Some a w1 pv s2 a2 w3 e2)
          qed
        qed
      qed
    qed
  qed
  have "parse_value k s = parse_value (Suc n) s" if "2 * length s < Suc n" "Suc n \<le> k" for s k
    using that v [of s "k - 1"] by (cases k) simp_all
  moreover have "parse_elems k s = parse_elems (Suc n) s"
    if "2 * length s + 1 < Suc n" "Suc n \<le> k" for s k
    using that e [of s "k - 1"] by (cases k) simp_all
  moreover have "parse_members k s = parse_members (Suc n) s"
    if "2 * length s + 1 < Suc n" "Suc n \<le> k" for s k
    using that mm [of s "k - 1"] by (cases k) simp_all
  ultimately show ?case
    by blast
qed

text \<open>\<open>JSON_parse\<close> gives its parser enough fuel: any larger amount yields the same result.\<close>

lemma JSON_parse_fuel:
  "Suc (2 * length s) \<le> m \<Longrightarrow> parse_value m s = parse_value (Suc (2 * length s)) s"
  using fuel_enough [of "Suc (2 * length s)"] by simp

subsection \<open>Strings survive \<open>JSON.stringify\<close> and \<open>JSON.parse\<close>\<close>

lemma DQ_BSL [simp]: "DQ \<noteq> BSL" "BSL \<noteq> DQ" "of_char DQ = (34::nat)" "of_char BSL = (92::nat)"
  "DQ \<noteq> CHR ''u''" "BSL \<noteq> CHR ''u''"
  by (simp_all add: DQ_def BSL_def)

lemma hex_val_hex_digit: "d < 16 \<Longrightarrow> hex_val (hex_digit d) = Some d"
  by (simp add: hex_val_def hex_digit_def Let_def)

lemma hex_val_zero: "hex_val (CHR ''0'') = Some 0"
  by (simp add: hex_val_def)

lemma hex4_ctl:
  assumes "(of_char c :: nat) < 32"
  shows "hex4 (CHR ''0'') (CHR ''0'') (hex_digit (of_char c div 16)) (hex_digit (of_char c mod 16)) = Some c"
proof -
  let ?k = "of_char c :: nat"
  have "hex_val (hex_digit (?k div 16)) = Some (?k div 16)"
    using assms by (intro hex_val_hex_digit) simp
  moreover have "hex_val (hex_digit (?k mod 16)) = Some (?k mod 16)"
    by (intro hex_val_hex_digit) simp
  moreover have "char_of (16 * (?k div 16) + ?k mod 16) = c"
    by simp
  ultimately show ?thesis
    by (simp add: hex4_def hex_val_zero)
qed

lemma char_eq_of_nat: "(of_char c :: nat) = k \<Longrightarrow> c = char_of k"
  by (metis char_of_char)

lemma parse_quote_special:
  assumes "(of_char c :: nat) = k" "k \<in> {8, 9, 10, 12, 13}"
  shows "parse_chars (quote_char c @ r) = map_option (apfst ((#) c)) (parse_chars r)"
proof -
  have c: "c = char_of k"
    using assms(1) by (rule char_eq_of_nat)
  from assms(2) consider "k = 8" | "k = 9" | "k = 10" | "k = 12" | "k = 13"
    by blast
  then show ?thesis
    by cases (simp_all add: c quote_char_def unescape_def DQ_def BSL_def)
qed

lemma parse_quote_char:
  "parse_chars (quote_char c @ r) = map_option (apfst ((#) c)) (parse_chars r)"
proof -
  let ?k = "of_char c :: nat"
  consider (dq) "c = DQ" | (bsl) "c = BSL"
    | (special) "?k \<in> {8, 9, 10, 12, 13}"
    | (ctl) "?k < 32" "?k \<notin> {8, 9, 10, 12, 13}"
    | (plain) "32 \<le> ?k" "c \<noteq> DQ" "c \<noteq> BSL"
    by fastforce
  then show ?thesis
  proof cases
    case dq
    then show ?thesis by (simp add: quote_char_def unescape_def)
  next
    case bsl
    then show ?thesis by (simp add: quote_char_def unescape_def)
  next
    case special
    then show ?thesis by (rule parse_quote_special [OF refl])
  next
    case ctl
    have ne: "c \<noteq> DQ" "c \<noteq> BSL"
      using ctl(1) by auto
    show ?thesis
      using ctl ne hex4_ctl [OF ctl(1)] by (simp add: quote_char_def Let_def)
  next
    case plain
    then show ?thesis by (simp add: quote_char_def Let_def)
  qed
qed

lemma parse_chars_quoted:
  "parse_chars (concat (map quote_char s) @ DQ # r) = Some (s, r)"
  by (induction s) (simp_all add: parse_quote_char)

lemma not_ws [simp]:
  "\<not> is_ws DQ" "\<not> is_ws (CHR ''['')" "\<not> is_ws (CHR '']'')" "\<not> is_ws (CHR ''{'')"
  "\<not> is_ws (CHR ''}'')" "\<not> is_ws (CHR '':'')" "\<not> is_ws (CHR '','')"
  by (simp_all add: is_ws_def DQ_def)

lemma skip_ws_Cons [simp]: "\<not> is_ws c \<Longrightarrow> skip_ws (c # cs) = c # cs"
  by (simp add: skip_ws_def)

lemma skip_ws_Nil [simp]: "skip_ws [] = []"
  by (simp add: skip_ws_def)

lemma DQ_neq [simp]:
  "DQ \<noteq> CHR ''[''" "DQ \<noteq> CHR ''{''" "DQ \<noteq> CHR '']''" "DQ \<noteq> CHR ''}''" "DQ \<noteq> CHR '':''" "DQ \<noteq> CHR '',''"
  "CHR ''['' \<noteq> DQ" "CHR ''{'' \<noteq> DQ" "CHR '']'' \<noteq> DQ" "CHR ''}'' \<noteq> DQ" "CHR '':'' \<noteq> DQ" "CHR '','' \<noteq> DQ"
  by (simp_all add: DQ_def)

subsection \<open>Record lists survive \<open>JSON.stringify\<close> and \<open>JSON.parse\<close>\<close>

lemma parse_value_quote:
  "parse_value (Suc n) (quote s @ r) = Some (JStr s, r)"
  by (simp add: quote_def parse_chars_quoted)

lemma parse_members_more:
  "parse_members (Suc (Suc n)) (quote k @ CHR '':'' # quote v @ CHR '','' # r) =
     map_option (apfst ((#) (k, JStr v))) (parse_members (Suc n) r)"
  using parse_value_quote [of n v "CHR '','' # r"]
  by (simp add: quote_def parse_chars_quoted)

lemma parse_members_last:
  "parse_members (Suc (Suc n)) (quote k @ CHR '':'' # quote v @ CHR ''}'' # r) =
     Some ([(k, JStr v)], r)"
  using parse_value_quote [of n v "CHR ''}'' # r"]
  by (simp add: quote_def parse_chars_quoted)

lemma mk_obj_cert: "mk_obj [(''id'', a), (''verificationCode'', b), (''name'', c), (''title'', d),
     (''issuer'', e), (''date'', f), (''note'', g), (''createdAt'', h)] =
   [(''id'', a), (''verificationCode'', b), (''name'', c), (''title'', d),
     (''issuer'', e), (''date'', f), (''note'', g), (''createdAt'', h)]"
  by (simp add: mk_obj_def)

lemma stringify_cert:
  "JSON_stringify (cert_json c) =
     CHR ''{'' # quote ''id'' @ CHR '':'' # quote (id' c) @ CHR '','' #
       quote ''verificationCode'' @ CHR '':'' # quote (verificationCode c) @ CHR '','' #
       quote ''name'' @ CHR '':'' # quote (name c) @ CHR '','' #
       quote ''title'' @ CHR '':'' # quote (title c) @ CHR '','' #
       quote ''issuer'' @ CHR '':'' # quote (issuer c) @ CHR '','' #
       quote ''date'' @ CHR '':'' # quote (date c) @ CHR '','' #
       quote ''note'' @ CHR '':'' # quote (note' c) @ CHR '','' #
       quote ''createdAt'' @ CHR '':'' # quote (createdAt c) @ ''}''"
  by (simp add: cert_json_def)

lemma parse_value_object:
  "parse_value (Suc n) (CHR ''{'' # quote k @ r) =
     map_option (apfst (\<lambda>ms. JObj (mk_obj ms))) (parse_members n (quote k @ r))"
  by (simp add: quote_def)

lemma parse_value_cert:
  "parse_value (Suc (Suc (Suc (Suc (Suc (Suc (Suc (Suc (Suc (Suc n)))))))))) (JSON_stringify (cert_json c) @ r)
     = Some (cert_json c, r)"
proof -
  have m: "parse_members (Suc (Suc (Suc (Suc (Suc (Suc (Suc (Suc (Suc n)))))))))
      (quote ''id'' @ CHR '':'' # quote (id' c) @ CHR '','' #
       quote ''verificationCode'' @ CHR '':'' # quote (verificationCode c) @ CHR '','' #
       quote ''name'' @ CHR '':'' # quote (name c) @ CHR '','' #
       quote ''title'' @ CHR '':'' # quote (title c) @ CHR '','' #
       quote ''issuer'' @ CHR '':'' # quote (issuer c) @ CHR '','' #
       quote ''date'' @ CHR '':'' # quote (date c) @ CHR '','' #
       quote ''note'' @ CHR '':'' # quote (note' c) @ CHR '','' #
       quote ''createdAt'' @ CHR '':'' # quote (createdAt c) @ CHR ''}'' # r)
     = Some ([(''id'', JStr (id' c)),
           (''verificationCode'', JStr (verificationCode c)),
           (''name'', JStr (name c)),
           (''title'', JStr (title c)),
           (''issuer'', JStr (issuer c)),
           (''date'', JStr (date c)),
           (''note'', JStr (note' c)),
           (''createdAt'', JStr (createdAt c))], r)"
    by (simp only: parse_members_more parse_members_last option.map apfst_conv)
  show ?thesis
    unfolding stringify_cert
    by (simp add: parse_value_object m mk_obj_cert cert_json_def del: parse_value.simps parse_members.simps)
qed

lemma length_stringify_cert: "10 \<le> length (JSON_stringify (cert_json c))"
  unfolding stringify_cert by (simp add: quote_def)

lemma parse_value_cert_fuel:
  assumes "10 \<le> n"
  shows "parse_value n (JSON_stringify (cert_json c) @ r) = Some (cert_json c, r)"
proof -
  from assms have "n = Suc (Suc (Suc (Suc (Suc (Suc (Suc (Suc (Suc (Suc (n - 10))))))))))"
    by arith
  then show ?thesis
    using parse_value_cert [of "n - 10" c r] by (simp only:)
qed

lemma parse_elems_more:
  "parse_value n s = Some (v, CHR '','' # r) \<Longrightarrow>
   parse_elems (Suc n) s = map_option (apfst ((#) v)) (parse_elems n r)"
  by simp

lemma parse_elems_last:
  "parse_value n s = Some (v, CHR '']'' # r) \<Longrightarrow> parse_elems (Suc n) s = Some ([v], r)"
  by simp

text \<open>The elements of a non-empty array of records, up to the closing bracket.\<close>

lemma parse_elems_certs:
  "cs \<noteq> [] \<Longrightarrow> 10 + length cs \<le> n \<Longrightarrow>
   parse_elems n (join_comma (map (\<lambda>c. JSON_stringify (cert_json c)) cs) @ CHR '']'' # r) =
     Some (map cert_json cs, r)"
proof (induction cs arbitrary: n)
  case Nil
  then show ?case by simp
next
  case (Cons c cs)
  from Cons.prems(2) obtain m where n: "n = Suc m" and m: "10 + length cs \<le> m"
    by (cases n) auto
  have m10: "10 \<le> m"
    using m by simp
  show ?case
  proof (cases cs)
    case Nil
    have "parse_elems (Suc m) (JSON_stringify (cert_json c) @ CHR '']'' # r) = Some ([cert_json c], r)"
      by (rule parse_elems_last) (rule parse_value_cert_fuel [OF m10])
    then show ?thesis
      by (simp add: n Nil del: parse_elems.simps)
  next
    case (Cons d ds)
    let ?rest = "join_comma (map (\<lambda>c. JSON_stringify (cert_json c)) cs) @ CHR '']'' # r"
    have ih: "parse_elems m ?rest = Some (map cert_json cs, r)"
      using Cons.IH [of m] m Cons by simp
    have eq: "join_comma (map (\<lambda>c. JSON_stringify (cert_json c)) (c # cs)) @ CHR '']'' # r =
        JSON_stringify (cert_json c) @ CHR '','' # ?rest"
      by (simp add: Cons)
    have "parse_elems (Suc m) (JSON_stringify (cert_json c) @ CHR '','' # ?rest) =
        map_option (apfst ((#) (cert_json c))) (parse_elems m ?rest)"
      by (rule parse_elems_more) (rule parse_value_cert_fuel [OF m10])
    then show ?thesis
      unfolding n eq ih by simp
  qed
qed

lemma length_join_comma:
  "(\<forall>s \<in> set ss. k \<le> length s) \<Longrightarrow> k * length ss \<le> length (join_comma ss)"
  by (induction ss rule: join_comma.induct) auto

lemma parse_value_array:
  "s \<noteq> [] \<Longrightarrow> hd s = CHR ''{'' \<Longrightarrow>
   parse_value (Suc n) (CHR ''['' # s) = map_option (apfst JArr) (parse_elems n s)"
  by (cases s) (simp_all add: is_ws_def)

lemma JSON_parse_stringify_list:
  "JSON_parse (JSON_stringify (list_json cs)) = Inr (list_json cs)"
proof (cases cs)
  case Nil
  have e: "parse_value (Suc n) ''[]'' = Some (JArr [], [])" for n
    by simp
  have "JSON_parse ''[]'' = Inr (JArr [])"
    unfolding JSON_parse_def e by simp
  then show ?thesis
    by (simp add: list_json_def Nil)
next
  case (Cons c ds)
  let ?body = "join_comma (map (\<lambda>c. JSON_stringify (cert_json c)) cs)"
  let ?s = "CHR ''['' # ?body @ '']''"
  have s: "JSON_stringify (list_json cs) = ?s"
    by (simp add: list_json_def comp_def)
  have "10 * length (map (\<lambda>c. JSON_stringify (cert_json c)) cs) \<le> length ?body"
    by (rule length_join_comma) (auto simp: length_stringify_cert)
  then have fuel: "10 + length cs \<le> 2 * length ?s"
    using Cons by simp
  have hd: "?body @ '']'' \<noteq> []" "hd (?body @ '']'') = CHR ''{''"
    using Cons by (cases ds; simp add: stringify_cert)+
  have "parse_value (Suc (2 * length ?s)) ?s =
      map_option (apfst JArr) (parse_elems (2 * length ?s) (?body @ '']''))"
    using hd by (rule parse_value_array)
  also have "\<dots> = Some (JArr (map cert_json cs), [])"
    using parse_elems_certs [OF _ fuel, of "[]"] Cons by simp
  finally have pv: "parse_value (Suc (2 * length ?s)) ?s = Some (JArr (map cert_json cs), [])" .
  show ?thesis
    unfolding JSON_parse_def s pv by (simp add: list_json_def)
qed

subsection \<open>The storage area\<close>

lemma getItem_setItem:
  "setItem st k v = Inr st' \<Longrightarrow> getItem st' k = Some v"
  by (auto simp: setItem_def getItem_def Let_def update_conv' split: if_splits)

lemma setItem_quota:
  "setItem st k v = Inr st' \<longleftrightarrow>
     usage (AList.update k v (items st)) \<le> quota st \<and>
     st' = st\<lparr>items := AList.update k v (items st)\<rparr>"
  by (auto simp: setItem_def Let_def)

lemma stringify_list_nonempty: "JSON_stringify (list_json cs) \<noteq> []"
  by (simp add: list_json_def)

lemma load_after_write:
  assumes "getItem (localStorage w) STORAGE_KEY = Some (JSON_stringify (list_json cs))"
  shows "load w = (list_json cs, w)"
  using assms
  by (simp add: load_def or_else_def stringify_list_nonempty JSON_parse_stringify_list
      try_catch_def)

lemma save_ok:
  assumes "usage (AList.update STORAGE_KEY (JSON_stringify v) (items (localStorage w)))
             \<le> quota (localStorage w)"
  shows "save v w =
     w\<lparr>localStorage :=
         (localStorage w)\<lparr>items := AList.update STORAGE_KEY (JSON_stringify v) (items (localStorage w))\<rparr>\<rparr>"
  using assms by (simp add: save_def setItem_def try_catch_def Let_def)

lemma load_save_ok:
  assumes "usage (AList.update STORAGE_KEY (JSON_stringify (list_json cs)) (items (localStorage w)))
             \<le> quota (localStorage w)"
  shows "fst (load (save (list_json cs) w)) = list_json cs"
    and "console (snd (load (save (list_json cs) w))) = console w"
  by (simp_all add: save_ok [OF assms] load_after_write getItem_def update_conv')

lemma quote_char_plain:
  "32 \<le> (of_char c :: nat) \<Longrightarrow> c \<noteq> CHR 0x22 \<Longrightarrow> c \<noteq> CHR 0x5C \<Longrightarrow> quote_char c = [c]"
  by (simp add: quote_char_def DQ_def BSL_def)

lemma ana_eq:
  "ana = \<lparr>name = ''Ana Ruiz'', title = ''Curso de Primeros Auxilios'', issuer = ''Centro X'',
          date = ''2024-03-01'', note' = ''ok'', id' = ''4fzyo82mvyr'',
          verificationCode = ''K2J8X0Q1M7C'', createdAt = ''2024-03-01T10:00:00.000Z''\<rparr>"
proof -
  have "toUpperCase ''k2j8x0q1m7c'' = ''K2J8X0Q1M7C''"
    by code_simp
  then show ?thesis
    by (simp add: ana_def ana_payload_def makeCertificate_def uid_def slice_def)
qed

lemma stringify_ana_length: "length (JSON_stringify (list_json [ana])) = 201"
  by (simp add: ana_eq list_json_def cert_json_def quote_def quote_char_plain)

text \<open>The submit handler once the name has passed the check.\<close>

lemma handle_name_ok:
  assumes "name (form_payload e f) \<noteq> []"
  shows "handleGenerateAndSave e f m =
     notify ''Certificado generado y guardado en historial''
       (m\<lparr>certList := makeCertificate (random1 e) (random2 e) (createdNow e) (form_payload e f) # certList m,
          page := save (list_json (makeCertificate (random1 e) (random2 e) (createdNow e) (form_payload e f) # certList m)) (page m),
          currentPreview := Some (makeCertificate (random1 e) (random2 e) (createdNow e) (form_payload e f))\<rparr>)"
  using assms by (simp add: handleGenerateAndSave_def Let_def)

subsection \<open>The wrapping loop as a grouping\<close>

lemma is_space_SP: "is_space SP"
  by (simp add: is_space_def SP_def)

lemma trim_snoc_space: "trim (s @ [SP]) = trim s"
proof (cases "\<forall>c \<in> set s. is_space c")
  case True
  then have "dropWhile is_space (s @ [SP]) = []" "dropWhile is_space s = []"
    by (simp_all add: is_space_SP)
  then show ?thesis
    by (simp only: trim_def)
next
  case False
  then have "dropWhile is_space (s @ [SP]) = dropWhile is_space s @ [SP]"
    by (auto simp: dropWhile_append1)
  then show ?thesis
    by (simp add: trim_def is_space_SP)
qed

lemma trim_single: "trim (candidate_text [w]) = trim w"
  by (simp add: candidate_text_def trim_snoc_space)

lemma candidate_text_snoc: "candidate_text (cur @ [w]) = candidate_text cur @ w @ [SP]"
  by (simp add: candidate_text_def)

lemma candidate_text_empty: "candidate_text cur = [] \<longleftrightarrow> cur = []"
  by (cases cur) (simp_all add: candidate_text_def)

lemma wrap_loop_groups:
  "(0 < n) = (cur \<noteq> []) \<Longrightarrow> cur \<noteq> [] \<or> ws \<noteq> [] \<Longrightarrow>
   wrap_loop mt x mw lh n ws (candidate_text cur) y = draw_groups x y mw lh (wrap_groups mt mw cur ws)"
proof (induction ws arbitrary: n cur y)
  case Nil
  then show ?case by (simp add: candidate_text_empty)
next
  case (Cons w ws)
  have single: "w @ [SP] = candidate_text [w]"
    by (simp add: candidate_text_def)
  show ?case
  proof (cases "mt (candidate_text (cur @ [w])) > mw \<and> cur \<noteq> []")
    case True
    then have "wrap_loop mt x mw lh n (w # ws) (candidate_text cur) y =
        FillText (trim (candidate_text cur)) (x + mw / 2) y
        # wrap_loop mt x mw lh (n + 1) ws (candidate_text [w]) (y + lh)"
      using Cons.prems(1) by (simp add: candidate_text_snoc Let_def single [symmetric])
    also have "wrap_loop mt x mw lh (n + 1) ws (candidate_text [w]) (y + lh) =
        draw_groups x (y + lh) mw lh (wrap_groups mt mw [w] ws)"
      by (rule Cons.IH) simp_all
    finally have e: "wrap_loop mt x mw lh n (w # ws) (candidate_text cur) y =
        FillText (trim (candidate_text cur)) (x + mw / 2) y
        # draw_groups x (y + lh) mw lh (wrap_groups mt mw [w] ws)" .
    have "wrap_groups mt mw cur (w # ws) = cur # wrap_groups mt mw [w] ws"
      using True by simp
    then show ?thesis
      by (simp only: e draw_groups.simps)
  next
    case False
    then have "wrap_loop mt x mw lh n (w # ws) (candidate_text cur) y =
        wrap_loop mt x mw lh (n + 1) ws (candidate_text (cur @ [w])) y"
      using Cons.prems(1) by (auto simp add: candidate_text_snoc Let_def)
    also have "\<dots> = draw_groups x y mw lh (wrap_groups mt mw (cur @ [w]) ws)"
      by (rule Cons.IH) simp_all
    finally have e: "wrap_loop mt x mw lh n (w # ws) (candidate_text cur) y =
        draw_groups x y mw lh (wrap_groups mt mw (cur @ [w]) ws)" .
    have "wrap_groups mt mw cur (w # ws) = wrap_groups mt mw (cur @ [w]) ws"
      using False by auto
    then show ?thesis
      by (simp only: e)
  qed
qed

lemma split_sp_nonempty: "split_sp s \<noteq> []"
  by (induction s) (auto split: list.splits)

lemma lines_of_draw_groups:
  "lines_of (draw_groups x y mw lh ls) = map (\<lambda>l. trim (candidate_text l)) ls"
  by (induction ls arbitrary: y) simp_all

lemma concat_wrap_groups: "concat (wrap_groups mt mw cur ws) = cur @ ws"
  by (induction ws arbitrary: cur) simp_all

lemma wrap_groups_nonempty:
  "cur \<noteq> [] \<or> ws \<noteq> [] \<Longrightarrow> [] \<notin> set (wrap_groups mt mw cur ws)"
  by (induction ws arbitrary: cur) auto

lemma wrap_groups_length: "1 \<le> length (wrap_groups mt mw cur ws)"
  by (induction ws arbitrary: cur) simp_all

lemma wrap_groups_single:
  "length (wrap_groups mt mw cur ws) = 1 \<Longrightarrow> cur \<noteq> [] \<Longrightarrow> ws \<noteq> [] \<Longrightarrow>
   mt (candidate_text (cur @ ws)) \<le> mw"
proof (induction ws arbitrary: cur)
  case Nil
  then show ?case by simp
next
  case (Cons w ws)
  have fits: "\<not> mt (candidate_text (cur @ [w])) > mw"
  proof
    assume "mt (candidate_text (cur @ [w])) > mw"
    then have "length (wrap_groups mt mw cur (w # ws)) = Suc (length (wrap_groups mt mw [w] ws))"
      using Cons.prems(2) by simp
    then show False
      using Cons.prems(1) wrap_groups_length [of mt mw "[w]" ws] by simp
  qed
  then have step: "wrap_groups mt mw cur (w # ws) = wrap_groups mt mw (cur @ [w]) ws"
    by simp
  show ?case
  proof (cases ws)
    case Nil
    then show ?thesis using fits by simp
  next
    case (Cons v vs)
    have "mt (candidate_text ((cur @ [w]) @ ws)) \<le> mw"
      by (rule Cons.IH) (use Cons.prems step Cons in simp_all)
    then show ?thesis by simp
  qed
qed

lemma wrap_groups_drawn_fit:
  assumes mono: "\<forall>s. mt (trim s) \<le> mt s"
  shows "\<forall>w \<in> set ws. mt (trim w) \<le> mw \<Longrightarrow> cur = [] \<or> mt (trim (candidate_text cur)) \<le> mw \<Longrightarrow>
   cur \<noteq> [] \<or> ws \<noteq> [] \<Longrightarrow>
   \<forall>g \<in> set (wrap_groups mt mw cur ws). mt (trim (candidate_text g)) \<le> mw"
proof (induction ws arbitrary: cur)
  case Nil
  then show ?case by simp
next
  case (Cons w ws)
  have w: "mt (trim (candidate_text [w])) \<le> mw"
    using Cons.prems(1) by (simp add: trim_single)
  show ?case
  proof (cases "mt (candidate_text (cur @ [w])) > mw \<and> cur \<noteq> []")
    case True
    moreover have "\<forall>g \<in> set (wrap_groups mt mw [w] ws). mt (trim (candidate_text g)) \<le> mw"
      by (rule Cons.IH) (use Cons.prems w in simp_all)
    ultimately show ?thesis
      using Cons.prems(2) by simp
  next
    case False
    have "\<forall>g \<in> set (wrap_groups mt mw (cur @ [w]) ws). mt (trim (candidate_text g)) \<le> mw"
    proof (rule Cons.IH)
      show "cur @ [w] = [] \<or> mt (trim (candidate_text (cur @ [w]))) \<le> mw"
      proof (cases "cur = []")
        case True
        then show ?thesis using w by simp
      next
        case nonempty: False
        then have "mt (candidate_text (cur @ [w])) \<le> mw"
          using False by auto
        moreover have "mt (trim (candidate_text (cur @ [w]))) \<le> mt (candidate_text (cur @ [w]))"
          using mono by blast
        ultimately show ?thesis by simp
      qed
    qed (use Cons.prems in simp_all)
    then show ?thesis
      using False by auto
  qed
qed

lemma candidate_text_split: "candidate_text (split_sp s) = s @ [SP]"
  by (induction s) (auto simp: candidate_text_def split: list.splits)

subsection \<open>The wrapping loop and the reference algorithm\<close>

lemma candidate_text_line: "g \<noteq> [] \<Longrightarrow> candidate_text g = spec_line g @ [SP]"
  by (induction g rule: spec_line.induct) (simp_all add: candidate_text_def)

lemma trim_candidate_text: "g \<noteq> [] \<Longrightarrow> trim (candidate_text g) = trim (spec_line g)"
  by (simp add: candidate_text_line trim_snoc_space)

text \<open>The loop groups the pieces as the reference does when it measures one space more.\<close>

lemma spec_wrap_shift:
  "spec_wrap (\<lambda>l. mt (l @ [SP])) mw cur ws = wrap_groups mt mw cur ws"
  by (induction ws arbitrary: cur) (simp_all add: candidate_text_line)

lemma draw_groups_lines:
  "draw_groups x y mw lh gs = spec_draw x y mw lh (map (\<lambda>g. trim (candidate_text g)) gs)"
  by (induction gs arbitrary: y) simp_all

lemma wrapText_groups:
  "wrapText mt text x y mw lh =
     SetTextAlign ''center''
     # spec_draw x y mw lh
         (map (\<lambda>g. trim (spec_line g)) (spec_wrap (\<lambda>l. mt (l @ [SP])) mw [] (split_sp text)))"
proof -
  let ?groups = "wrap_groups mt mw [] (split_sp text)"
  have "wrap_loop mt x mw lh 0 (split_sp text) [] y = draw_groups x y mw lh ?groups"
    using wrap_loop_groups [of 0 "[]" "split_sp text" mt x mw lh y]
    by (simp add: split_sp_nonempty candidate_text_def)
  moreover have "[] \<notin> set ?groups"
    by (rule wrap_groups_nonempty) (simp add: split_sp_nonempty)
  then have "map (\<lambda>g. trim (candidate_text g)) ?groups = map (\<lambda>g. trim (spec_line g)) ?groups"
    by (intro map_cong refl trim_candidate_text) auto
  ultimately show ?thesis
    by (simp add: wrapText_def draw_groups_lines spec_wrap_shift)
qed

subsection \<open>Notes with single spaces\<close>

lemma words_from_words:
  "SP \<notin> set cur \<Longrightarrow> w \<in> set (words_from cur s) \<Longrightarrow> w \<noteq> [] \<and> SP \<notin> set w"
  by (induction cur s rule: words_from.induct) (auto split: if_splits)

lemma spec_words_words: "w \<in> set (spec_words text) \<Longrightarrow> w \<noteq> [] \<and> SP \<notin> set w"
  using words_from_words [of "[]" w "text"] by (simp add: spec_words_def)

lemma split_sp_word: "SP \<notin> set w \<Longrightarrow> split_sp w = [w]"
  by (induction w) auto

lemma split_sp_word_more: "SP \<notin> set w \<Longrightarrow> split_sp (w @ SP # r) = w # split_sp r"
  by (induction w) auto

lemma split_sp_line:
  "ws \<noteq> [] \<Longrightarrow> \<forall>w \<in> set ws. SP \<notin> set w \<Longrightarrow> split_sp (spec_line ws) = ws"
  by (induction ws rule: spec_line.induct) (simp_all add: split_sp_word split_sp_word_more)

lemma set_word_line: "w \<in> set ws \<Longrightarrow> set w \<subseteq> set (spec_line ws)"
  by (induction ws rule: spec_line.induct) auto

lemma trim_id: "s \<noteq> [] \<Longrightarrow> \<not> is_space (hd s) \<Longrightarrow> \<not> is_space (last s) \<Longrightarrow> trim s = s"
proof -
  assume s: "s \<noteq> []" and h: "\<not> is_space (hd s)" and l: "\<not> is_space (last s)"
  from s h have "dropWhile is_space s = s"
    by (cases s) simp_all
  moreover from s l have "dropWhile is_space (rev s) = rev s"
    by (cases "rev s") (simp_all add: last_rev [symmetric] hd_rev)
  ultimately show ?thesis
    by (simp add: trim_def)
qed

lemma hd_spec_line: "g \<noteq> [] \<Longrightarrow> hd g \<noteq> [] \<Longrightarrow> hd (spec_line g) = hd (hd g)"
  by (induction g rule: spec_line.induct) simp_all

lemma spec_line_nonempty: "g \<noteq> [] \<Longrightarrow> last g \<noteq> [] \<Longrightarrow> spec_line g \<noteq> []"
  by (induction g rule: spec_line.induct) simp_all

lemma last_spec_line: "g \<noteq> [] \<Longrightarrow> last g \<noteq> [] \<Longrightarrow> last (spec_line g) = last (last g)"
proof (induction g rule: spec_line.induct)
  case 1
  then show ?case by simp
next
  case (2 w)
  then show ?case by simp
next
  case (3 w v ws)
  have "spec_line (v # ws) \<noteq> []"
    using "3.prems" by (intro spec_line_nonempty) simp_all
  then show ?case
    using 3 by simp
qed

lemma trim_spec_line:
  assumes "g \<noteq> []" and "\<forall>w \<in> set g. w \<noteq> [] \<and> (\<forall>c \<in> set w. \<not> is_space c)"
  shows "trim (spec_line g) = spec_line g"
proof (rule trim_id)
  have h: "hd g \<in> set g" and l: "last g \<in> set g"
    using assms(1) by simp_all
  from assms(2) h have hne: "hd g \<noteq> []" and hc: "\<forall>c \<in> set (hd g). \<not> is_space c"
    by blast+
  from assms(2) l have lne: "last g \<noteq> []" and lc: "\<forall>c \<in> set (last g). \<not> is_space c"
    by blast+
  show "spec_line g \<noteq> []"
    using assms(1) lne by (rule spec_line_nonempty)
  have "hd (hd g) \<in> set (hd g)"
    using hne by simp
  then show "\<not> is_space (hd (spec_line g))"
    using hc by (simp add: hd_spec_line [OF assms(1) hne])
  have "last (last g) \<in> set (last g)"
    using lne by simp
  then show "\<not> is_space (last (spec_line g))"
    using lc by (simp add: last_spec_line [OF assms(1) lne])
qed

lemma concat_spec_wrap: "concat (spec_wrap mt mw cur ws) = cur @ ws"
  by (induction ws arbitrary: cur) simp_all

lemma spec_wrap_nonempty: "cur \<noteq> [] \<or> ws \<noteq> [] \<Longrightarrow> [] \<notin> set (spec_wrap mt mw cur ws)"
  by (induction ws arbitrary: cur) auto

lemma spec_wrap_members:
  "g \<in> set (spec_wrap mt mw cur ws) \<Longrightarrow> set g \<subseteq> set cur \<union> set ws"
proof -
  assume "g \<in> set (spec_wrap mt mw cur ws)"
  then have "set g \<subseteq> set (concat (spec_wrap mt mw cur ws))"
    by auto
  then show ?thesis
    by (simp add: concat_spec_wrap)
qed

lemma single_spaced_words:
  assumes "single_spaced text"
  shows "split_sp text = spec_words text"
    and "\<forall>w \<in> set (spec_words text). w \<noteq> [] \<and> (\<forall>c \<in> set w. \<not> is_space c)"
proof -
  from assms have ne: "spec_words text \<noteq> []" and line: "spec_line (spec_words text) = text"
    and chars: "\<forall>c \<in> set text. c = SP \<or> \<not> is_space c"
    by (simp_all add: single_spaced_def list_all_iff)
  have "split_sp (spec_line (spec_words text)) = spec_words text"
    using ne by (rule split_sp_line) (simp add: spec_words_words)
  then show "split_sp text = spec_words text"
    by (simp add: line)
  show "\<forall>w \<in> set (spec_words text). w \<noteq> [] \<and> (\<forall>c \<in> set w. \<not> is_space c)"
  proof (intro ballI conjI)
    fix w
    assume w: "w \<in> set (spec_words text)"
    then show "w \<noteq> []"
      by (simp add: spec_words_words)
    fix c
    assume c: "c \<in> set w"
    then have "c \<in> set text"
      using set_word_line [OF w] line by auto
    moreover have "c \<noteq> SP"
      using spec_words_words [OF w] c by auto
    ultimately show "\<not> is_space c"
      using chars by blast
  qed
qed

subsection \<open>Case mappings and trimming\<close>

lemma upper_lower_char: "upper_char (lower_char c) = upper_char c"
  by (auto simp: upper_char_def lower_char_def Let_def)

lemma is_space_lower_char: "is_space (lower_char c) = is_space c"
  by (auto simp: is_space_def lower_char_def Let_def)

lemma trim_map:
  assumes "\<And>c. is_space (f c) = is_space c"
  shows "trim (map f s) = map f (trim s)"
proof -
  have d: "dropWhile is_space (map f xs) = map f (dropWhile is_space xs)" for xs
    by (induction xs) (simp_all add: assms)
  show ?thesis
    by (simp add: trim_def d rev_map)
qed

lemma query_lower:
  "toUpperCase (trim (toLowerCase s)) = toUpperCase (trim s)"
  by (simp add: toUpperCase_def toLowerCase_def trim_map [of lower_char, OF is_space_lower_char]
      upper_lower_char)

lemma or_else_Some_Nil: "or_else (Some v) [] = v"
  by (simp add: or_else_def)

lemma upper_alnum_not_space: "is_upper_alnum c \<Longrightarrow> \<not> is_space c"
  by (auto simp: is_upper_alnum_def is_space_def Let_def)

lemma upper_alnum_upper: "is_upper_alnum c \<Longrightarrow> upper_char c = c"
  by (auto simp: is_upper_alnum_def upper_char_def Let_def)

lemma dropWhile_none: "list_all (\<lambda>c. \<not> P c) s \<Longrightarrow> dropWhile P s = s"
  by (cases s) simp_all

lemma trim_token: "list_all is_upper_alnum s \<Longrightarrow> trim s = s"
proof -
  assume a: "list_all is_upper_alnum s"
  then have n: "list_all (\<lambda>c. \<not> is_space c) s"
    by (simp add: list_all_iff upper_alnum_not_space)
  then have "list_all (\<lambda>c. \<not> is_space c) (rev s)"
    by (simp add: list_all_iff)
  then show ?thesis
    using n by (simp add: trim_def dropWhile_none)
qed

lemma upper_token: "list_all is_upper_alnum s \<Longrightarrow> toUpperCase s = s"
  by (induction s) (simp_all add: toUpperCase_def upper_alnum_upper)

lemma find_distinct:
  "c \<in> set cs \<Longrightarrow> distinct (map f cs) \<Longrightarrow> find (\<lambda>r. f r = f c) cs = Some c"
  by (induction cs) (auto simp: image_iff)

lemma length_trim: "length (trim s) \<le> length s"
proof -
  have "length (dropWhile is_space (rev (dropWhile is_space s))) \<le> length (rev (dropWhile is_space s))"
    by (rule length_dropWhile_le)
  also have "\<dots> \<le> length s"
    by (simp add: length_dropWhile_le)
  finally show ?thesis
    by (simp add: trim_def)
qed

subsection \<open>Tokens\<close>

lemma upper_base36: "is_base36 c \<Longrightarrow> is_upper_alnum (upper_char c)"
  by (auto simp: is_base36_def is_upper_alnum_def upper_char_def Let_def)

lemma random_text_digits: "random_text r \<Longrightarrow> list_all is_base36 (drop 2 r)"
  by (auto simp: random_text_def)

lemma random_text_nonzero: "random_text r \<Longrightarrow> r \<noteq> ''0'' \<Longrightarrow> drop 2 r \<noteq> []"
  by (auto simp: random_text_def)

lemma list_all_take: "list_all P xs \<Longrightarrow> list_all P (take n xs)"
  by (auto simp: list_all_iff dest: in_set_takeD)

lemma JSON_parse_empty_array: "JSON_parse ''[]'' = Inr (JArr [])"
proof -
  have e: "parse_value (Suc n) ''[]'' = Some (JArr [], [])" for n
    by simp
  show ?thesis
    unfolding JSON_parse_def e by simp
qed

subsection \<open>Claims\<close>

text \<open>
  C1 (as amended). When the write of \<open>storage.save(records)\<close> fits the quota of the
  storage area, \<open>storage.load()\<close> afterwards returns a value equal to the list of records
  that was saved, the empty list included, and logs nothing. Without that condition the
  law fails: see the counterexample below.
\<close>

theorem save_load_roundtrip:
  assumes "usage (AList.update STORAGE_KEY (JSON_stringify (list_json records))
                    (items (localStorage w))) \<le> quota (localStorage w)"
  shows "fst (load (save (list_json records) w)) = list_json records
       \<and> console (snd (load (save (list_json records) w))) = console w"
  using load_save_ok [OF assms] by simp

theorem save_load_roundtrip_witness:
  "fst (load (save (list_json [ana]) roomy_world)) = list_json [ana]
   \<and> fst (load (save (list_json []) roomy_world)) = list_json []"
proof -
  have "usage (AList.update STORAGE_KEY (JSON_stringify (list_json [ana]))
          (items (localStorage roomy_world))) \<le> quota (localStorage roomy_world)"
    by (simp add: usage_def roomy_world_def STORAGE_KEY_def stringify_ana_length)
  moreover have "usage (AList.update STORAGE_KEY (JSON_stringify (list_json []))
          (items (localStorage roomy_world))) \<le> quota (localStorage roomy_world)"
    by (simp add: usage_def list_json_def roomy_world_def STORAGE_KEY_def)
  ultimately show ?thesis
    using save_load_roundtrip [of "[ana]" roomy_world] save_load_roundtrip [of "[]" roomy_world]
    by blast
qed

text \<open>
  C1 as stated fails: in the storage area with room for the list of Ana's record only,
  saving the list of Beatriz's record after it exceeds the quota; \<open>save\<close> swallows the
  exception and \<open>load\<close> returns the list saved before, not the one just saved.
\<close>

theorem save_load_roundtrip_counterexample:
  "fst (load (save (list_json [bea]) (save (list_json [ana]) tight_world))) = list_json [ana]
   \<and> list_json [ana] \<noteq> list_json [bea]"
  by code_simp

text \<open>
  C2 (as amended). \<open>wrapText\<close> never splits a word: the lines it emits are the trimmed
  texts of consecutive, non-empty groups of the words of the note, in order. If the note
  has at least two words and its words, joined as the renderer joins them (each followed
  by a space), measure more than the maximum width, more than one line is emitted. If
  every single word, as drawn (trimmed), fits the maximum width, and trimming never
  widens a text, every emitted line fits the maximum width. A single word wider than the
  column is emitted whole, on a line of its own.
\<close>

theorem wrapText_lines:
  "(\<exists>groups. concat groups = split_sp text \<and> [] \<notin> set groups
       \<and> lines_of (wrapText measureText text x y maxWidth lineHeight)
           = map (\<lambda>g. trim (candidate_text g)) groups)
   \<and> (2 \<le> length (split_sp text) \<and> maxWidth < measureText (text @ [SP])
       \<longrightarrow> 1 < length (lines_of (wrapText measureText text x y maxWidth lineHeight)))
   \<and> ((\<forall>s. measureText (trim s) \<le> measureText s)
        \<and> (\<forall>w \<in> set (split_sp text). measureText (trim w) \<le> maxWidth)
       \<longrightarrow> (\<forall>l \<in> set (lines_of (wrapText measureText text x y maxWidth lineHeight)).
             measureText l \<le> maxWidth))"
proof -
  let ?groups = "wrap_groups measureText maxWidth [] (split_sp text)"
  have w: "wrap_loop measureText x maxWidth lineHeight 0 (split_sp text) [] y =
      draw_groups x y maxWidth lineHeight ?groups"
    using wrap_loop_groups [of 0 "[]" "split_sp text" measureText x maxWidth lineHeight y]
    by (simp add: split_sp_nonempty candidate_text_def)
  have lines: "lines_of (wrapText measureText text x y maxWidth lineHeight) =
      map (\<lambda>g. trim (candidate_text g)) ?groups"
    by (simp add: wrapText_def w lines_of_draw_groups)
  have whole: "concat ?groups = split_sp text"
    by (simp add: concat_wrap_groups)
  have nonempty: "[] \<notin> set ?groups"
    by (rule wrap_groups_nonempty) (simp add: split_sp_nonempty)
  have first: "\<exists>groups. concat groups = split_sp text \<and> [] \<notin> set groups
       \<and> lines_of (wrapText measureText text x y maxWidth lineHeight)
           = map (\<lambda>g. trim (candidate_text g)) groups"
    using lines whole nonempty by blast
  have second: "1 < length (lines_of (wrapText measureText text x y maxWidth lineHeight))"
    if two: "2 \<le> length (split_sp text)" and wide: "maxWidth < measureText (text @ [SP])"
  proof (rule ccontr)
    assume "\<not> 1 < length (lines_of (wrapText measureText text x y maxWidth lineHeight))"
    then have one: "length ?groups = 1"
      using wrap_groups_length [of measureText maxWidth "[]" "split_sp text"] by (simp add: lines)
    from two obtain w0 w1 ws where sp: "split_sp text = w0 # w1 # ws"
      by (cases "split_sp text"; cases "tl (split_sp text)") auto
    have "?groups = wrap_groups measureText maxWidth [w0] (w1 # ws)"
      by (simp add: sp)
    with one have "length (wrap_groups measureText maxWidth [w0] (w1 # ws)) = 1"
      by simp
    then have "measureText (candidate_text ([w0] @ (w1 # ws))) \<le> maxWidth"
      by (rule wrap_groups_single) simp_all
    then have "measureText (candidate_text (split_sp text)) \<le> maxWidth"
      by (simp add: sp)
    then show False
      using wide by (simp add: candidate_text_split)
  qed
  have third: "\<forall>l \<in> set (lines_of (wrapText measureText text x y maxWidth lineHeight)).
      measureText l \<le> maxWidth"
    if mono: "\<forall>s. measureText (trim s) \<le> measureText s"
      and fit: "\<forall>w \<in> set (split_sp text). measureText (trim w) \<le> maxWidth"
  proof -
    have "\<forall>g \<in> set ?groups. measureText (trim (candidate_text g)) \<le> maxWidth"
      using mono fit by (rule wrap_groups_drawn_fit) (simp_all add: split_sp_nonempty)
    then show ?thesis
      by (simp add: lines)
  qed
  show ?thesis
    using first second third by blast
qed

theorem wrapText_lines_witness:
  "1 < length (lines_of (wrapText fixed_font long_note 160 440 880 28))
   \<and> list_all (\<lambda>l. fixed_font l \<le> 880) (lines_of (wrapText fixed_font long_note 160 440 880 28))
   \<and> list_all (\<lambda>l. fixed_font l \<le> 50) (lines_of (wrapText fixed_font ''aaaaa'' 160 440 50 28))"
proof -
  have mono: "\<forall>s. fixed_font (trim s) \<le> fixed_font s"
    by (simp add: fixed_font_def length_trim)
  have two: "2 \<le> length (split_sp long_note)"
    by code_simp
  have wide: "880 < fixed_font (long_note @ [SP])"
    by (simp add: fixed_font_def long_note_def)
  have "\<forall>w \<in> set (split_sp long_note). fixed_font w \<le> 880"
    by (simp add: fixed_font_def long_note_def SP_def)
  with mono have fit: "\<forall>w \<in> set (split_sp long_note). fixed_font (trim w) \<le> 880"
    by (meson order_trans)
  have "\<forall>w \<in> set (split_sp ''aaaaa''). fixed_font w \<le> 50"
    by (simp add: fixed_font_def SP_def)
  with mono have fit5: "\<forall>w \<in> set (split_sp ''aaaaa''). fixed_font (trim w) \<le> 50"
    by (meson order_trans)
  from wrapText_lines [of long_note fixed_font 160 440 880 28] mono two wide fit
  have "1 < length (lines_of (wrapText fixed_font long_note 160 440 880 28))
      \<and> (\<forall>l \<in> set (lines_of (wrapText fixed_font long_note 160 440 880 28)). fixed_font l \<le> 880)"
    by blast
  moreover from wrapText_lines [of "''aaaaa''" fixed_font 160 440 50 28] mono fit5
  have "\<forall>l \<in> set (lines_of (wrapText fixed_font ''aaaaa'' 160 440 50 28)). fixed_font l \<le> 50"
    by blast
  ultimately show ?thesis
    by (simp add: list_all_iff)
qed

text \<open>
  C2 as stated fails: a note of one word of 100 characters, 1000 pixels wide in the
  fixed font, exceeds the 880 pixel column, yet exactly one line is emitted, and that
  line is wider than the column.
\<close>

theorem wrapText_lines_counterexample:
  "lines_of (wrapText fixed_font long_word 160 440 880 28) = [long_word]
   \<and> 880 < fixed_font long_word"
proof -
  have "lines_of (wrapText fixed_font long_word 160 440 880 28) = [long_word]"
    by code_simp
  moreover have "880 < fixed_font long_word"
    by (simp add: fixed_font_def long_word_def)
  ultimately show ?thesis by simp
qed

text \<open>
  C3 (as amended). On every note \<open>wrapText\<close> issues the commands of the reference
  algorithm of the specification with three differences: its words are the pieces of
  \<open>text.split(' ')\<close>, so that an empty piece between two adjacent spaces counts as a word;
  the width it compares with the maximum is that of the candidate line followed by one
  space; and each line is trimmed when it is drawn. On a note that is its words joined
  by single spaces, with no other white space, it issues exactly the commands of the
  reference algorithm \<open>spec_wrapText\<close> run with every width measured one space further.
\<close>

theorem wrapText_reference:
  "wrapText measureText text x y maxWidth lineHeight =
     SetTextAlign ''center''
     # spec_draw x y maxWidth lineHeight
         (map (\<lambda>line. trim (spec_line line))
            (spec_wrap (\<lambda>l. measureText (l @ [SP])) maxWidth [] (split_sp text)))
   \<and> (single_spaced text \<longrightarrow>
        wrapText measureText text x y maxWidth lineHeight =
          spec_wrapText (\<lambda>l. measureText (l @ [SP])) text x y maxWidth lineHeight)"
proof (intro conjI impI)
  show g: "wrapText measureText text x y maxWidth lineHeight =
     SetTextAlign ''center''
     # spec_draw x y maxWidth lineHeight
         (map (\<lambda>line. trim (spec_line line))
            (spec_wrap (\<lambda>l. measureText (l @ [SP])) maxWidth [] (split_sp text)))"
    by (rule wrapText_groups)
  assume s: "single_spaced text"
  let ?groups = "spec_wrap (\<lambda>l. measureText (l @ [SP])) maxWidth [] (spec_words text)"
  note w = single_spaced_words [OF s]
  have ne: "spec_words text \<noteq> []"
    using s by (simp add: single_spaced_def)
  have "trim (spec_line g) = spec_line g" if "g \<in> set ?groups" for g
  proof (rule trim_spec_line)
    show "g \<noteq> []"
      using that spec_wrap_nonempty [of "[]" "spec_words text"] ne by auto
    show "\<forall>w \<in> set g. w \<noteq> [] \<and> (\<forall>c \<in> set w. \<not> is_space c)"
      using spec_wrap_members [OF that] w(2) by auto
  qed
  then have m: "map (\<lambda>line. trim (spec_line line)) ?groups = map spec_line ?groups"
    by (intro map_cong refl) auto
  have "wrapText measureText text x y maxWidth lineHeight =
      SetTextAlign ''center'' # spec_draw x y maxWidth lineHeight (map spec_line ?groups)"
    using g by (simp only: w(1) m)
  then show "wrapText measureText text x y maxWidth lineHeight =
      spec_wrapText (\<lambda>l. measureText (l @ [SP])) text x y maxWidth lineHeight"
    by (simp only: spec_wrapText_def)
qed

theorem wrapText_reference_witness:
  "wrapText fixed_font long_note 160 440 880 28 =
     spec_wrapText (\<lambda>l. fixed_font (l @ [SP])) long_note 160 440 880 28
   \<and> lines_of (wrapText fixed_font long_note 160 440 880 28) =
       [''Por haber completado satisfactoriamente el curso de primeros auxilios impartido durante'',
        ''el mes de marzo'']"
proof -
  have "single_spaced long_note"
    by code_simp
  with wrapText_reference [of fixed_font long_note 160 440 880 28]
  have "wrapText fixed_font long_note 160 440 880 28 =
      spec_wrapText (\<lambda>l. fixed_font (l @ [SP])) long_note 160 440 880 28"
    by blast
  moreover have "lines_of (wrapText fixed_font long_note 160 440 880 28) =
       [''Por haber completado satisfactoriamente el curso de primeros auxilios impartido durante'',
        ''el mes de marzo'']"
    by code_simp
  ultimately show ?thesis
    by blast
qed

text \<open>
  C3 as stated fails. In the fixed font the note \<open>aa bb\<close> is 50 pixels wide: in a column
  of 50 pixels the reference algorithm, which measures the line, draws it on one line,
  while \<open>wrapText\<close>, which measures the line and a space after it, draws two. On the note
  \<open>aaaa  bbbb\<close>, with two spaces, \<open>wrapText\<close> draws an empty line between the two words,
  the reference algorithm does not.
\<close>

theorem wrapText_reference_counterexample:
  "lines_of (wrapText fixed_font ''aa bb'' 160 440 50 28) = [''aa'', ''bb'']
   \<and> lines_of (spec_wrapText fixed_font ''aa bb'' 160 440 50 28) = [''aa bb'']
   \<and> lines_of (wrapText fixed_font ''aaaa  bbbb'' 160 440 50 28) = [''aaaa'', [], ''bbbb'']
   \<and> lines_of (spec_wrapText fixed_font ''aaaa  bbbb'' 160 440 50 28) = [''aaaa'', ''bbbb'']"
  by code_simp

text \<open>
  C4 (as amended). When the trimmed name is not empty, the submit handler puts the new
  record at the head of the in-memory list and calls \<open>save\<close> on the full list. When that
  write fits the quota of the storage area, \<open>load\<close> afterwards returns the full list,
  whose head is the record just added.
\<close>

theorem add_then_load:
  assumes "name (form_payload e f) \<noteq> []"
  shows "certList (handleGenerateAndSave e f m) =
           makeCertificate (random1 e) (random2 e) (createdNow e) (form_payload e f) # certList m
       \<and> page (handleGenerateAndSave e f m) =
           save (list_json (certList (handleGenerateAndSave e f m))) (page m)
       \<and> (usage (AList.update STORAGE_KEY
                   (JSON_stringify (list_json (certList (handleGenerateAndSave e f m))))
                   (items (localStorage (page m)))) \<le> quota (localStorage (page m))
          \<longrightarrow> fst (load (page (handleGenerateAndSave e f m))) =
                JArr (cert_json (makeCertificate (random1 e) (random2 e) (createdNow e) (form_payload e f))
                      # map cert_json (certList m)))"
proof -
  let ?c = "makeCertificate (random1 e) (random2 e) (createdNow e) (form_payload e f)"
  have l: "certList (handleGenerateAndSave e f m) = ?c # certList m"
    and p: "page (handleGenerateAndSave e f m) = save (list_json (?c # certList m)) (page m)"
    by (simp_all add: handle_name_ok [OF assms] notify_def)
  have "fst (load (save (list_json (?c # certList m)) (page m))) = list_json (?c # certList m)"
    if "usage (AList.update STORAGE_KEY (JSON_stringify (list_json (?c # certList m)))
          (items (localStorage (page m)))) \<le> quota (localStorage (page m))"
    using that by (rule load_save_ok)
  then show ?thesis
    unfolding l p by (simp add: list_json_def)
qed

theorem add_then_load_witness:
  "certList (handleGenerateAndSave ana_env ana_form (start tight_world)) = [ana]
   \<and> fst (load (page (handleGenerateAndSave ana_env ana_form (start tight_world)))) = JArr [cert_json ana]"
proof -
  let ?m = "handleGenerateAndSave ana_env ana_form (start tight_world)"
  have n: "name (form_payload ana_env ana_form) \<noteq> []"
    by code_simp
  have c: "makeCertificate (random1 ana_env) (random2 ana_env) (createdNow ana_env)
      (form_payload ana_env ana_form) = ana"
    by code_simp
  have s: "certList (start tight_world) = []" "page (start tight_world) = tight_world"
    by (simp_all add: start_def)
  note t = add_then_load [OF n, of "start tight_world", unfolded c s]
  from t have l: "certList ?m = [ana]"
    by blast
  have "usage (AList.update STORAGE_KEY (JSON_stringify (list_json (certList ?m)))
          (items (localStorage tight_world))) \<le> quota (localStorage tight_world)"
    unfolding l by (simp add: usage_def tight_world_def STORAGE_KEY_def stringify_ana_length)
  with t have "fst (load (page ?m)) = JArr (cert_json ana # map cert_json [])"
    by blast
  with l show ?thesis
    by simp
qed

text \<open>
  C4 as stated fails: in a storage area that has room for Ana's record only, adding
  Beatriz's record after Ana's puts it at the head of the in-memory list, the write
  fails and is swallowed, and \<open>load\<close> returns the list whose head is still Ana's record.
\<close>

theorem add_then_load_counterexample:
  "certList (handleGenerateAndSave bea_env bea_form
               (handleGenerateAndSave ana_env ana_form (start tight_world))) = [bea, ana]
   \<and> fst (load (page (handleGenerateAndSave bea_env bea_form
               (handleGenerateAndSave ana_env ana_form (start tight_world))))) = JArr [cert_json ana]
   \<and> cert_json ana \<noteq> cert_json bea"
  by code_simp

text \<open>
  C5 (as amended). A confirmed deletion keeps exactly the in-memory records whose id
  differs from the given one, unchanged and in their order; none of them has that id; when
  no record matches, the list is unchanged. In every case \<open>save\<close> is called on the
  result. When that write fits the quota of the storage area, \<open>load\<close> afterwards
  returns exactly the filtered list.
\<close>

theorem remove_then_load:
  "certList (handleDelete True i m) = filter (\<lambda>c. id' c \<noteq> i) (certList m)
   \<and> (\<forall>c \<in> set (certList (handleDelete True i m)). id' c \<noteq> i)
   \<and> ((\<forall>c \<in> set (certList m). id' c \<noteq> i) \<longrightarrow> certList (handleDelete True i m) = certList m)
   \<and> page (handleDelete True i m) = save (list_json (certList (handleDelete True i m))) (page m)
   \<and> (usage (AList.update STORAGE_KEY
               (JSON_stringify (list_json (certList (handleDelete True i m))))
               (items (localStorage (page m)))) \<le> quota (localStorage (page m))
      \<longrightarrow> fst (load (page (handleDelete True i m))) =
            list_json (filter (\<lambda>c. id' c \<noteq> i) (certList m)))"
proof -
  let ?cs = "filter (\<lambda>c. id' c \<noteq> i) (certList m)"
  have l: "certList (handleDelete True i m) = ?cs"
    and p: "page (handleDelete True i m) = save (list_json ?cs) (page m)"
    by (simp_all add: handleDelete_def notify_def Let_def)
  have "fst (load (save (list_json ?cs) (page m))) = list_json ?cs"
    if "usage (AList.update STORAGE_KEY (JSON_stringify (list_json ?cs))
          (items (localStorage (page m)))) \<le> quota (localStorage (page m))"
    using that by (rule load_save_ok)
  moreover have "(\<forall>c \<in> set (certList m). id' c \<noteq> i) \<longrightarrow> ?cs = certList m"
    by (simp add: filter_id_conv)
  ultimately show ?thesis
    unfolding l p by simp
qed

theorem remove_then_load_witness:
  "certList (handleDelete True (id' ana) (handleGenerateAndSave bea_env bea_form
               (handleGenerateAndSave ana_env ana_form (start roomy_world)))) = [bea]
   \<and> fst (load (page (handleDelete True (id' ana) (handleGenerateAndSave bea_env bea_form
               (handleGenerateAndSave ana_env ana_form (start roomy_world)))))) = list_json [bea]"
proof -
  let ?m = "handleGenerateAndSave bea_env bea_form
      (handleGenerateAndSave ana_env ana_form (start roomy_world))"
  have l: "certList ?m = [bea, ana]"
    by code_simp
  have f: "filter (\<lambda>c. id' c \<noteq> id' ana) [bea, ana] = [bea]"
    by code_simp
  note t = remove_then_load [of "id' ana" ?m]
  from t have "certList (handleDelete True (id' ana) ?m) = filter (\<lambda>c. id' c \<noteq> id' ana) (certList ?m)"
    by blast
  then have l': "certList (handleDelete True (id' ana) ?m) = [bea]"
    by (simp only: l f)
  have "usage (AList.update STORAGE_KEY
          (JSON_stringify (list_json (certList (handleDelete True (id' ana) ?m))))
          (items (localStorage (page ?m)))) \<le> quota (localStorage (page ?m))"
    unfolding l' by code_simp
  with t have "fst (load (page (handleDelete True (id' ana) ?m))) =
      list_json (filter (\<lambda>c. id' c \<noteq> id' ana) (certList ?m))"
    by blast
  then have "fst (load (page (handleDelete True (id' ana) ?m))) = list_json [bea]"
    by (simp only: l f)
  with l' show ?thesis
    by blast
qed

text \<open>
  C5 as stated fails: in the storage area with room for Ana's record only, after Ana's
  and Beatriz's records were added (the second write failed), deleting Ana's id leaves
  Beatriz's record in memory, the write fails again, and \<open>load\<close> still returns Ana's
  record, the one with the deleted id.
\<close>

theorem remove_then_load_counterexample:
  "certList (handleDelete True (id' ana) (handleGenerateAndSave bea_env bea_form
               (handleGenerateAndSave ana_env ana_form (start tight_world)))) = [bea]
   \<and> fst (load (page (handleDelete True (id' ana) (handleGenerateAndSave bea_env bea_form
               (handleGenerateAndSave ana_env ana_form (start tight_world)))))) = JArr [cert_json ana]"
  by code_simp

text \<open>
  C6. For every record, searching by the lower-cased verification code gives the same
  result as searching by the code itself, because the handler upper-cases the trimmed
  input before it compares. When the record is stored and its code is a non-empty
  token of digits and upper-case letters, as generated codes are, and the stored codes
  are distinct, both searches return that very record.
\<close>

theorem search_ignores_case:
  "handleSearch (toLowerCase (verificationCode c)) m = handleSearch (verificationCode c) m
   \<and> (c \<in> set (certList m) \<and> verificationCode c \<noteq> []
        \<and> list_all is_upper_alnum (verificationCode c)
        \<and> distinct (map verificationCode (certList m))
      \<longrightarrow> handleSearch (toLowerCase (verificationCode c)) m = Valid c
          \<and> handleSearch (verificationCode c) m = Valid c)"
proof -
  have same: "handleSearch (toLowerCase v) m = handleSearch v m" for v
    by (simp add: handleSearch_def or_else_Some_Nil query_lower)
  have "handleSearch (verificationCode c) m = Valid c"
    if "c \<in> set (certList m)" "verificationCode c \<noteq> []"
      "list_all is_upper_alnum (verificationCode c)" "distinct (map verificationCode (certList m))"
    using that
    by (simp add: handleSearch_def or_else_Some_Nil trim_token upper_token find_distinct)
  then show ?thesis
    by (simp add: same)
qed

theorem search_ignores_case_witness:
  "handleSearch ''k2j8x0q1m7c'' (handleGenerateAndSave ana_env ana_form (start roomy_world)) = Valid ana
   \<and> handleSearch ''K2J8X0Q1M7C'' (handleGenerateAndSave ana_env ana_form (start roomy_world)) = Valid ana"
proof -
  let ?m = "handleGenerateAndSave ana_env ana_form (start roomy_world)"
  have l: "certList ?m = [ana]"
    by code_simp
  have v: "verificationCode ana = ''K2J8X0Q1M7C''"
    by (simp add: ana_eq)
  have low: "toLowerCase ''K2J8X0Q1M7C'' = ''k2j8x0q1m7c''"
    by code_simp
  have al: "list_all is_upper_alnum ''K2J8X0Q1M7C''"
    by code_simp
  have prem: "ana \<in> set (certList ?m) \<and> verificationCode ana \<noteq> []
      \<and> list_all is_upper_alnum (verificationCode ana)
      \<and> distinct (map verificationCode (certList ?m))"
    using al by (simp add: l v)
  from search_ignores_case [of ana ?m] prem
  have "handleSearch (toLowerCase (verificationCode ana)) ?m = Valid ana
      \<and> handleSearch (verificationCode ana) ?m = Valid ana"
    by blast
  then show ?thesis
    by (simp only: v low)
qed

text \<open>
  C7 (as amended). The factory copies the five payload fields and the creation time. Its
  \<open>id\<close> is the first 12 fraction digits of the first random draw in base 36 and its
  \<open>verificationCode\<close> the first 16 of the second, upper-cased: the code consists of
  digits and upper-case letters only and has at most 16 characters, the id of digits and
  lower-case letters and at most 12. Each is non-empty unless its draw is 0. Both are
  functions of the draws alone: the factory does not compare them with earlier values.
\<close>

theorem makeCertificate_tokens:
  assumes "random_text r1" and "random_text r2"
  shows "name (makeCertificate r1 r2 now p) = name p
       \<and> title (makeCertificate r1 r2 now p) = title p
       \<and> issuer (makeCertificate r1 r2 now p) = issuer p
       \<and> date (makeCertificate r1 r2 now p) = date p
       \<and> note' (makeCertificate r1 r2 now p) = note' p
       \<and> createdAt (makeCertificate r1 r2 now p) = now
       \<and> id' (makeCertificate r1 r2 now p) = take 12 (drop 2 r1)
       \<and> verificationCode (makeCertificate r1 r2 now p) = toUpperCase (take 16 (drop 2 r2))
       \<and> list_all is_base36 (id' (makeCertificate r1 r2 now p))
       \<and> length (id' (makeCertificate r1 r2 now p)) \<le> 12
       \<and> list_all is_upper_alnum (verificationCode (makeCertificate r1 r2 now p))
       \<and> length (verificationCode (makeCertificate r1 r2 now p)) \<le> 16
       \<and> (r1 \<noteq> ''0'' \<longrightarrow> id' (makeCertificate r1 r2 now p) \<noteq> [])
       \<and> (r2 \<noteq> ''0'' \<longrightarrow> verificationCode (makeCertificate r1 r2 now p) \<noteq> [])"
proof -
  have i: "id' (makeCertificate r1 r2 now p) = take 12 (drop 2 r1)"
    and v: "verificationCode (makeCertificate r1 r2 now p) = toUpperCase (take 16 (drop 2 r2))"
    by (simp_all add: makeCertificate_def uid_def slice_def)
  have "list_all is_base36 (take 12 (drop 2 r1))"
    using assms(1) by (intro list_all_take random_text_digits)
  moreover have "list_all is_base36 (take 16 (drop 2 r2))"
    using assms(2) by (intro list_all_take random_text_digits)
  then have "list_all is_upper_alnum (toUpperCase (take 16 (drop 2 r2)))"
    by (simp add: toUpperCase_def list_all_iff upper_base36)
  moreover have "r1 \<noteq> ''0'' \<longrightarrow> take 12 (drop 2 r1) \<noteq> []"
    using random_text_nonzero [OF assms(1)] by simp
  moreover have "r2 \<noteq> ''0'' \<longrightarrow> toUpperCase (take 16 (drop 2 r2)) \<noteq> []"
    using random_text_nonzero [OF assms(2)] by (simp add: toUpperCase_def)
  ultimately show ?thesis
    unfolding i v by (simp add: makeCertificate_def toUpperCase_def)
qed

theorem makeCertificate_tokens_witness:
  "list_all is_base36 (id' ana) \<and> id' ana \<noteq> [] \<and> length (id' ana) \<le> 12
   \<and> list_all is_upper_alnum (verificationCode ana) \<and> verificationCode ana \<noteq> []
   \<and> length (verificationCode ana) \<le> 16 \<and> name ana = name ana_payload"
proof -
  have r: "random_text ''0.4fzyo82mvyr''" "random_text ''0.k2j8x0q1m7c''"
    by code_simp+
  have ne: "''0.4fzyo82mvyr'' \<noteq> ''0''" "''0.k2j8x0q1m7c'' \<noteq> ''0''"
    by simp_all
  note t = makeCertificate_tokens [OF r, of "''2024-03-01T10:00:00.000Z''" ana_payload,
      folded ana_def]
  from t ne show ?thesis
    by blast
qed

text \<open>
  C7 as stated fails. The draws 0.5 and 0.125 read \<open>0.i\<close> and \<open>0.4i\<close> in base 36: the
  codes made from them have one and two characters, so the length is not fixed; a draw
  that repeats gives the id of the earlier record again; the draw 0 gives an empty id and
  an empty code.
\<close>

theorem makeCertificate_counterexample:
  "random_text ''0.i'' \<and> random_text ''0.4i'' \<and> random_text ''0''
   \<and> verificationCode (makeCertificate ''0.i'' ''0.i'' ''2024-03-01T10:00:00.000Z'' ana_payload) = ''I''
   \<and> verificationCode (makeCertificate ''0.i'' ''0.4i'' ''2024-03-01T10:00:01.000Z'' ana_payload) = ''4I''
   \<and> id' (makeCertificate ''0.i'' ''0.i'' ''2024-03-01T10:00:00.000Z'' ana_payload) = ''i''
   \<and> id' (makeCertificate ''0.i'' ''0.4i'' ''2024-03-01T10:00:01.000Z'' ana_payload) = ''i''
   \<and> id' (makeCertificate ''0'' ''0'' ''2024-03-01T10:00:02.000Z'' ana_payload) = []
   \<and> verificationCode (makeCertificate ''0'' ''0'' ''2024-03-01T10:00:02.000Z'' ana_payload) = []"
  by code_simp

text \<open>
  C8 (as amended). \<open>load\<close> returns normally on every content of the slot: every exception
  of its body is caught. When the slot is absent or holds the empty text it returns the
  empty list and logs nothing. When the text does not parse as JSON it returns the empty
  list and logs \<open>Storage read error\<close> with the exception. When the text parses, \<open>load\<close>
  returns the parsed value as it is and logs nothing; for a slot written by \<open>save\<close> that
  value is the list of records in the order saved, which is most-recent-first when the
  list was built by \<open>add\<close>.
\<close>

theorem load_cases:
  "(getItem (localStorage w) STORAGE_KEY = None \<or> getItem (localStorage w) STORAGE_KEY = Some []
      \<longrightarrow> load w = (JArr [], w))
   \<and> (\<forall>raw e. getItem (localStorage w) STORAGE_KEY = Some raw \<and> raw \<noteq> [] \<and> JSON_parse raw = Inl e
      \<longrightarrow> load w = (JArr [], console_error ''Storage read error'' e w))
   \<and> (\<forall>raw v. getItem (localStorage w) STORAGE_KEY = Some raw \<and> raw \<noteq> [] \<and> JSON_parse raw = Inr v
      \<longrightarrow> load w = (v, w))
   \<and> (\<forall>cs. getItem (localStorage w) STORAGE_KEY = Some (JSON_stringify (list_json cs))
      \<longrightarrow> load w = (list_json cs, w))"
proof (intro conjI allI impI)
  assume "getItem (localStorage w) STORAGE_KEY = None \<or> getItem (localStorage w) STORAGE_KEY = Some []"
  then show "load w = (JArr [], w)"
    by (auto simp: load_def or_else_def try_catch_def JSON_parse_empty_array)
next
  fix raw e
  assume "getItem (localStorage w) STORAGE_KEY = Some raw \<and> raw \<noteq> [] \<and> JSON_parse raw = Inl e"
  then show "load w = (JArr [], console_error ''Storage read error'' e w)"
    by (simp add: load_def or_else_def try_catch_def)
next
  fix raw v
  assume "getItem (localStorage w) STORAGE_KEY = Some raw \<and> raw \<noteq> [] \<and> JSON_parse raw = Inr v"
  then show "load w = (v, w)"
    by (simp add: load_def or_else_def try_catch_def)
next
  fix cs
  assume "getItem (localStorage w) STORAGE_KEY = Some (JSON_stringify (list_json cs))"
  then show "load w = (list_json cs, w)"
    by (rule load_after_write)
qed

theorem load_cases_witness:
  "load roomy_world = (JArr [], roomy_world)
   \<and> load (world_with []) = (JArr [], world_with [])
   \<and> load (world_with ''{oops'') =
       (JArr [], console_error ''Storage read error'' SyntaxError (world_with ''{oops''))
   \<and> load (world_with ''null'') = (JNull, world_with ''null'')
   \<and> load (world_with (JSON_stringify (list_json [bea, ana]))) =
       (list_json [bea, ana], world_with (JSON_stringify (list_json [bea, ana])))"
proof -
  have 1: "getItem (localStorage roomy_world) STORAGE_KEY = None"
    by (simp add: getItem_def roomy_world_def)
  have 2: "getItem (localStorage (world_with raw)) STORAGE_KEY = Some raw" for raw
    by (simp add: getItem_def world_with_def)
  have 3: "JSON_parse ''{oops'' = Inl SyntaxError"
    by code_simp
  have 4: "JSON_parse ''null'' = Inr JNull"
    by code_simp
  show ?thesis
    using load_cases [of roomy_world] load_cases [of "world_with []"]
      load_cases [of "world_with ''{oops''"] load_cases [of "world_with ''null''"]
      load_cases [of "world_with (JSON_stringify (list_json [bea, ana]))"]
    by (simp add: 1 2 3 4)
qed

text \<open>
  C8 as stated fails: for an absent slot \<open>load\<close> returns the empty list without logging
  anything, and for the text \<open>null\<close>, which is not a list of records, it returns
  \<open>null\<close> and not an empty sequence.
\<close>

theorem load_counterexample:
  "fst (load roomy_world) = JArr []
   \<and> console (snd (load roomy_world)) = []
   \<and> fst (load (world_with ''null'')) = JNull
   \<and> console (snd (load (world_with ''null''))) = []"
  by code_simp

text \<open>
  C9. If the write in \<open>save(records)\<close> fails, \<open>save\<close> logs the diagnostic
  \<open>Storage write error\<close> with the exception and leaves the storage area as it was, so a
  later \<open>load\<close> reads what it read before. \<open>save\<close> returns normally: the exception is
  caught inside it.
\<close>

theorem save_failure:
  assumes "setItem (localStorage w) STORAGE_KEY (JSON_stringify records) = Inl e"
  shows "localStorage (save records w) = localStorage w
       \<and> console (save records w) = console w @ [(''Storage write error'', e)]
       \<and> fst (load (save records w)) = fst (load w)"
  using assms by (simp add: save_def try_catch_def console_error_def load_def split: sum.splits)

theorem save_failure_witness:
  "localStorage (save (list_json [ana]) full_world) = localStorage full_world
   \<and> console (save (list_json [ana]) full_world) = [(''Storage write error'', QuotaExceededError)]"
proof -
  have "setItem (localStorage full_world) STORAGE_KEY (JSON_stringify (list_json [ana]))
      = Inl QuotaExceededError"
    by (simp add: setItem_def usage_def full_world_def STORAGE_KEY_def)
  from save_failure [OF this] show ?thesis
    by (simp add: full_world_def)
qed

text \<open>
  C10. The mock QR box does not depend on the verification code: for any two records,
  whatever their codes, \<open>drawMockQR\<close> issues the same drawing commands at the same
  position and size. Its text parameter is never used.
\<close>

theorem drawMockQR_ignores_code:
  "drawMockQR (verificationCode c1) x y sz = drawMockQR (verificationCode c2) x y sz"
  by (simp add: drawMockQR_def)

end
